theory Spec2Isabelle
  imports Main "HOL-Library.Multiset"
begin

section \<open>Failures of the C code as values\<close>

text \<open>
  The C sources signal a violated precondition with \<^verbatim>\<open>assert\<close>, which aborts the
  process. A dereference of \<^verbatim>\<open>NULL\<close> and an array access outside
  \<^verbatim>\<open>[0, HEAP_MAX_SIZE)\<close> are undefined behaviour, and so is a read through a
  pointer that is not the address of a node. Each is a separate error value, so
  that a failing assertion can be told apart from a run that went past the place where an
  assertion was expected. Allocation failure (\<^verbatim>\<open>malloc\<close> returning
  \<^verbatim>\<open>NULL\<close>) is not modelled: every allocation succeeds.
\<close>

datatype error = AssertionFailed | NullDereference | OutOfBounds | InvalidPointer

section \<open>AVL tree: \<^verbatim>\<open>solutions/Grimaud_BST/src/avl_bst.c\<close>\<close>

text \<open>
  A \<^verbatim>\<open>binary_tree_s *\<close> is either \<^verbatim>\<open>NULL\<close> or the address of a node
  that exclusively owns its two children, so a handle is a value of the datatype below;
  the fields come in the order of the struct. A function that updates nodes in place and
  returns the new root is a function from trees to trees. Values and heights are C
  \<^verbatim>\<open>int\<close>s; values are only compared and copied, and a height is bounded by the
  number of nodes, so both are unbounded integers here.
\<close>

datatype avl_tree =
  ANull
  | ANode (avalue: int) (aheight: int) (aleft: avl_tree) (aright: avl_tree)

text \<open>The source's own \<^verbatim>\<open>max\<close>: \<^verbatim>\<open>(a>b)?a:b\<close>.\<close>

definition max_c :: "int \<Rightarrow> int \<Rightarrow> int" where
  "max_c a b = (if a > b then a else b)"

text \<open>\<^verbatim>\<open>binary_tree_height\<close> of the AVL file reads the stored field.\<close>

fun avl_binary_tree_height :: "avl_tree \<Rightarrow> int" where
  "avl_binary_tree_height ANull = -1"
| "avl_binary_tree_height (ANode v h l r) = h"

fun avl_binary_tree_nodes :: "avl_tree \<Rightarrow> int" where
  "avl_binary_tree_nodes ANull = 0"
| "avl_binary_tree_nodes (ANode v h l r) =
     avl_binary_tree_nodes l + avl_binary_tree_nodes r + 1"

fun avl_min_value_node :: "avl_tree \<Rightarrow> error + int" where
  "avl_min_value_node ANull = Inl AssertionFailed"
| "avl_min_value_node (ANode v h l r) =
     (if l \<noteq> ANull then avl_min_value_node l else Inr v)"

definition avl_bst_rotate_left :: "avl_tree \<Rightarrow> avl_tree" where
  "avl_bst_rotate_left tree =
     (case tree of
        ANull \<Rightarrow> tree
      | ANode v h l0 r0 \<Rightarrow>
          (case r0 of
             ANull \<Rightarrow> tree
           | ANode rv rh rl0 rr0 \<Rightarrow>
               (let l = avl_binary_tree_height l0;
                    rl = avl_binary_tree_height rl0;
                    rr = avl_binary_tree_height rr0;
                    tree_height = 1 + max_c l rl
                in ANode rv (1 + max_c tree_height rr) (ANode v tree_height l0 rl0) rr0)))"

definition avl_bst_rotate_right :: "avl_tree \<Rightarrow> avl_tree" where
  "avl_bst_rotate_right tree =
     (case tree of
        ANull \<Rightarrow> tree
      | ANode v h l0 r0 \<Rightarrow>
          (case l0 of
             ANull \<Rightarrow> tree
           | ANode lv lh ll0 lr0 \<Rightarrow>
               (let r = avl_binary_tree_height r0;
                    ll = avl_binary_tree_height ll0;
                    lr = avl_binary_tree_height lr0;
                    tree_height = 1 + max_c lr r
                in ANode lv (1 + max_c ll tree_height) ll0 (ANode v tree_height lr0 r0))))"

fun avl_find_node :: "int \<Rightarrow> avl_tree \<Rightarrow> bool" where
  "avl_find_node v ANull = False"
| "avl_find_node v (ANode x h l r) =
     (if x = v then True
      else if x < v then avl_find_node v r
      else avl_find_node v l)"

text \<open>
  \<^verbatim>\<open>dump_tree\<close> prints the values; the model returns the printed sequence.
\<close>

fun avl_dump_tree :: "avl_tree \<Rightarrow> bool \<Rightarrow> int list" where
  "avl_dump_tree ANull ascending = []"
| "avl_dump_tree (ANode x h l r) ascending =
     (if ascending then avl_dump_tree l ascending @ [x] @ avl_dump_tree r ascending
      else avl_dump_tree r ascending @ [x] @ avl_dump_tree l ascending)"

text \<open>
  The second half of \<^verbatim>\<open>add_node\<close>, from the comment "Check balance factors" on:
  it runs on the node \<open>x\<close> with children \<open>l\<close> and \<open>r\<close> (never \<^verbatim>\<open>NULL\<close> there),
  overwrites the node's height and rotates by the side the inserted value went to.
\<close>

definition avl_add_rebalance :: "int \<Rightarrow> int \<Rightarrow> avl_tree \<Rightarrow> avl_tree \<Rightarrow> avl_tree" where
  "avl_add_rebalance v x l r =
     (let left_height = avl_binary_tree_height l;
          right_height = avl_binary_tree_height r;
          h = 1 + (if left_height < right_height then right_height else left_height)
      in if left_height - right_height > 1 then
           (if (case l of ANull \<Rightarrow> False | ANode lv lh ll lr \<Rightarrow> v > lv)
            then avl_bst_rotate_right (ANode x h (avl_bst_rotate_left l) r)
            else avl_bst_rotate_right (ANode x h l r))
         else if right_height - left_height > 1 then
           (if (case r of ANull \<Rightarrow> False | ANode rv rh rl rr \<Rightarrow> v < rv)
            then avl_bst_rotate_left (ANode x h l (avl_bst_rotate_right r))
            else avl_bst_rotate_left (ANode x h l r))
         else ANode x h l r)"

fun avl_add_node :: "int \<Rightarrow> avl_tree \<Rightarrow> avl_tree" where
  "avl_add_node v ANull = avl_add_rebalance v v ANull ANull"
| "avl_add_node v (ANode x h l r) =
     (if v < x then avl_add_rebalance v x (avl_add_node v l) r
      else if v > x then avl_add_rebalance v x l (avl_add_node v r)
      else avl_add_rebalance v x l r)"

text \<open>
  Step 2 of \<^verbatim>\<open>remove_node\<close> ("Rebalance the tree if the tree was modified"): it
  returns \<^verbatim>\<open>NULL\<close> unchanged, and otherwise overwrites the height of the node
  and rotates by the heights of the grandchildren.
\<close>

definition avl_remove_rebalance :: "avl_tree \<Rightarrow> avl_tree" where
  "avl_remove_rebalance tree =
     (case tree of
        ANull \<Rightarrow> ANull
      | ANode x h0 l r \<Rightarrow>
          (let left_height = avl_binary_tree_height l;
               right_height = avl_binary_tree_height r;
               h = 1 + max_c left_height right_height
           in if left_height - right_height > 1 then
                (if (case l of ANull \<Rightarrow> False
                     | ANode lv lh ll lr \<Rightarrow>
                         avl_binary_tree_height ll \<ge> avl_binary_tree_height lr)
                 then avl_bst_rotate_right (ANode x h l r)
                 else avl_bst_rotate_right (ANode x h (avl_bst_rotate_left l) r))
              else if right_height - left_height > 1 then
                (if (case r of ANull \<Rightarrow> False
                     | ANode rv rh rl rr \<Rightarrow>
                         avl_binary_tree_height rr \<ge> avl_binary_tree_height rl)
                 then avl_bst_rotate_left (ANode x h l r)
                 else avl_bst_rotate_left (ANode x h l (avl_bst_rotate_right r)))
              else ANode x h l r))"

text \<open>
  \<^verbatim>\<open>remove_node\<close>. The only failure it can meet is the assertion of
  \<^verbatim>\<open>min_value_node\<close>. In the two-children case the recursive call is on the
  right child with the minimum of that child as the value to delete.
\<close>

function avl_remove_node :: "int \<Rightarrow> avl_tree \<Rightarrow> error + avl_tree" where
  "avl_remove_node v ANull = Inr ANull"
| "avl_remove_node v (ANode x h l r) =
     (if v < x then
        (case avl_remove_node v l of
           Inl e \<Rightarrow> Inl e
         | Inr l' \<Rightarrow> Inr (avl_remove_rebalance (ANode x h l' r)))
      else if v > x then
        (case avl_remove_node v r of
           Inl e \<Rightarrow> Inl e
         | Inr r' \<Rightarrow> Inr (avl_remove_rebalance (ANode x h l r')))
      else if l = ANull then Inr (avl_remove_rebalance r)
      else if r = ANull then Inr (avl_remove_rebalance l)
      else
        (case avl_min_value_node r of
           Inl e \<Rightarrow> Inl e
         | Inr temp_value \<Rightarrow>
             (case avl_remove_node temp_value r of
                Inl e \<Rightarrow> Inl e
              | Inr r' \<Rightarrow> Inr (avl_remove_rebalance (ANode temp_value h l r')))))"
  by pat_completeness auto
termination
  by (relation "measure (\<lambda>(v, tree). size tree)") auto

section \<open>Plain binary search tree: \<^verbatim>\<open>solutions/Grimaud_BST/src/simple_bst.c\<close>\<close>

datatype simple_tree =
  SNull
  | SNode (svalue: int) (sleft: simple_tree) (sright: simple_tree)

fun simple_binary_tree_height :: "simple_tree \<Rightarrow> int" where
  "simple_binary_tree_height SNull = -1"
| "simple_binary_tree_height (SNode v l r) =
     (let left = simple_binary_tree_height l;
          right = simple_binary_tree_height r;
          m = (if left > right then left else right)
      in m + 1)"

fun simple_binary_tree_nodes :: "simple_tree \<Rightarrow> int" where
  "simple_binary_tree_nodes SNull = 0"
| "simple_binary_tree_nodes (SNode v l r) =
     simple_binary_tree_nodes l + simple_binary_tree_nodes r + 1"

fun simple_min_value_node :: "simple_tree \<Rightarrow> error + int" where
  "simple_min_value_node SNull = Inl AssertionFailed"
| "simple_min_value_node (SNode v l r) =
     (if l \<noteq> SNull then simple_min_value_node l else Inr v)"

fun simple_add_node :: "int \<Rightarrow> simple_tree \<Rightarrow> simple_tree" where
  "simple_add_node v SNull = SNode v SNull SNull"
| "simple_add_node v (SNode x l r) =
     (if x = v then SNode x l r
      else if x > v then SNode x (simple_add_node v l) r
      else SNode x l (simple_add_node v r))"

fun simple_find_node :: "int \<Rightarrow> simple_tree \<Rightarrow> bool" where
  "simple_find_node v SNull = False"
| "simple_find_node v (SNode x l r) =
     (if x = v then True
      else if x < v then simple_find_node v r
      else simple_find_node v l)"

fun simple_dump_tree :: "simple_tree \<Rightarrow> bool \<Rightarrow> int list" where
  "simple_dump_tree SNull ascending = []"
| "simple_dump_tree (SNode x l r) ascending =
     (if ascending then simple_dump_tree l ascending @ [x] @ simple_dump_tree r ascending
      else simple_dump_tree r ascending @ [x] @ simple_dump_tree l ascending)"

function simple_remove_node :: "int \<Rightarrow> simple_tree \<Rightarrow> error + simple_tree" where
  "simple_remove_node v SNull = Inr SNull"
| "simple_remove_node v (SNode x l r) =
     (if v < x then
        (case simple_remove_node v l of
           Inl e \<Rightarrow> Inl e
         | Inr l' \<Rightarrow> Inr (SNode x l' r))
      else if v > x then
        (case simple_remove_node v r of
           Inl e \<Rightarrow> Inl e
         | Inr r' \<Rightarrow> Inr (SNode x l r'))
      else if l = SNull then Inr r
      else if r = SNull then Inr l
      else
        (case simple_min_value_node r of
           Inl e \<Rightarrow> Inl e
         | Inr temp_value \<Rightarrow>
             (case simple_remove_node temp_value r of
                Inl e \<Rightarrow> Inl e
              | Inr r' \<Rightarrow> Inr (SNode temp_value l r'))))"
  by pat_completeness auto
termination
  by (relation "measure (\<lambda>(v, tree). size tree)") auto

section \<open>Red-black tree: \<^verbatim>\<open>exercices/Nom_BST/src/rb_bst.c\<close>\<close>

datatype node_color_e = RED | BLACK

datatype rb_tree =
  RNull
  | RNode (rvalue: int) (rleft: rb_tree) (rright: rb_tree) (rcolor: node_color_e)


text \<open>
  The two rotations of this file have the body \<^verbatim>\<open>/* TODO */ return NULL;\<close>: they
  change no node and return \<^verbatim>\<open>NULL\<close> for every argument. So has
  \<^verbatim>\<open>find_node\<close>, which returns \<^verbatim>\<open>false\<close>.
\<close>

definition rb_bst_rotate_left :: "rb_tree \<Rightarrow> rb_tree" where
  "rb_bst_rotate_left tree = RNull"

definition rb_bst_rotate_right :: "rb_tree \<Rightarrow> rb_tree" where
  "rb_bst_rotate_right tree = RNull"

definition rb_find_node :: "int \<Rightarrow> rb_tree \<Rightarrow> bool" where
  "rb_find_node v tree = False"

text \<open>
  Two shorthands for what the source writes out at each place: the test
  \<^verbatim>\<open>t != NULL && t->color == RED\<close>, and the assignment \<^verbatim>\<open>t->color = c\<close>
  to a node. A field of a child is only read where the test on the child holds, as the
  short-circuit of \<^verbatim>\<open>&&\<close> has it.
\<close>

fun is_red :: "rb_tree \<Rightarrow> bool" where
  "is_red RNull = False"
| "is_red (RNode x l r c) = (c = RED)"

fun paint :: "node_color_e \<Rightarrow> rb_tree \<Rightarrow> rb_tree" where
  "paint k RNull = RNull"
| "paint k (RNode x l r c) = RNode x l r k"

fun fix_red_black :: "rb_tree \<Rightarrow> error + rb_tree" where
  "fix_red_black RNull = Inl NullDereference"
| "fix_red_black (RNode x l r c) =
     (if is_red l \<and> is_red (rleft l) then
        Inr (rb_bst_rotate_right
               (RNode x (RNode (rvalue l) (paint BLACK (rleft l)) (rright l) (rcolor l)) r c))
      else if is_red l \<and> is_red (rright l) then
        Inr (rb_bst_rotate_right (RNode x (rb_bst_rotate_left (paint BLACK l)) r c))
      else if is_red r \<and> is_red (rright r) then
        Inr (rb_bst_rotate_left
               (RNode x l (RNode (rvalue r) (rleft r) (paint BLACK (rright r)) (rcolor r)) c))
      else if is_red r \<and> is_red (rleft r) then
        Inr (rb_bst_rotate_left (RNode x l (rb_bst_rotate_right (paint BLACK r)) c))
      else Inr (RNode x l r c))"

fun add_node_rec :: "int \<Rightarrow> rb_tree \<Rightarrow> error + rb_tree" where
  "add_node_rec v RNull = Inr (RNode v RNull RNull RED)"
| "add_node_rec v (RNode x l r c) =
     (if v < x then
        (case add_node_rec v l of
           Inl e \<Rightarrow> Inl e
         | Inr l' \<Rightarrow> fix_red_black (RNode x l' r c))
      else if v > x then
        (case add_node_rec v r of
           Inl e \<Rightarrow> Inl e
         | Inr r' \<Rightarrow> fix_red_black (RNode x l r' c))
      else Inr (RNode x l r c))"

text \<open>\<^verbatim>\<open>add_node\<close> writes \<^verbatim>\<open>root->color\<close> without a test of
  \<^verbatim>\<open>root\<close>.\<close>

definition rb_add_node :: "int \<Rightarrow> rb_tree \<Rightarrow> error + rb_tree" where
  "rb_add_node v root =
     (case add_node_rec v root of
        Inl e \<Rightarrow> Inl e
      | Inr RNull \<Rightarrow> Inl NullDereference
      | Inr (RNode x l r c) \<Rightarrow> Inr (RNode x l r BLACK))"

text \<open>
  \<^verbatim>\<open>find_parent\<close> returns the address of a node of the tree it searches, or
  \<^verbatim>\<open>NULL\<close>. The model returns the place of that node: the turns that lead to it
  from the root of the search.
\<close>

datatype turn = ToLeft | ToRight

fun find_parent :: "int \<Rightarrow> rb_tree \<Rightarrow> turn list option" where
  "find_parent v RNull = None"
| "find_parent v (RNode x l r c) =
     (if l = RNull \<and> r = RNull then None
      else if (l \<noteq> RNull \<and> rvalue l = v) \<or> (r \<noteq> RNull \<and> rvalue r = v) then Some []
      else if v < x then map_option (\<lambda>p. ToLeft # p) (find_parent v l)
      else if v > x then map_option (\<lambda>p. ToRight # p) (find_parent v r)
      else None)"









section \<open>Binary max-heap: \<^verbatim>\<open>solutions/Grimaud_BST/src/heap.c\<close>\<close>

text \<open>
  The heap is a struct of an array of \<^verbatim>\<open>HEAP_MAX_SIZE\<close> cells and the number of
  cells in use. The array is a map from indices to values; only the indices in
  \<^verbatim>\<open>[0, HEAP_MAX_SIZE)\<close> exist in C, and an access outside is the error
  \<open>OutOfBounds\<close>. The functions take the heap the pointer refers to (a
  \<^verbatim>\<open>NULL\<close> handle is not modelled) and return the updated heap. Loop indices
  are C \<^verbatim>\<open>int\<close>s that stay in \<^verbatim>\<open>[0, nb_elements]\<close>, natural numbers
  here; \<^verbatim>\<open>(i-1)/2\<close> is taken for \<open>i > 0\<close> only, where the truncating
  division of C is \<open>div\<close>.
\<close>

definition HEAP_MAX_SIZE :: int where
  "HEAP_MAX_SIZE = 1000"

record heap_s =
  array :: "nat \<Rightarrow> int"
  nb_elements :: int

definition swap :: "(nat \<Rightarrow> int) \<Rightarrow> nat \<Rightarrow> nat \<Rightarrow> (nat \<Rightarrow> int)" where
  "swap a i j = (let tmp = a i; a1 = a(i := a j) in a1(j := tmp))"

text \<open>\<^verbatim>\<open>malloc\<close> leaves the cells indeterminate: \<open>a0\<close> is what they hold.\<close>

definition heap_create :: "(nat \<Rightarrow> int) \<Rightarrow> heap_s" where
  "heap_create a0 = \<lparr>array = a0, nb_elements = 0\<rparr>"

text \<open>The \<^verbatim>\<open>while\<close> loop of \<^verbatim>\<open>heap_add\<close>.\<close>

function heap_add_loop :: "(nat \<Rightarrow> int) \<Rightarrow> nat \<Rightarrow> (nat \<Rightarrow> int)" where
  "heap_add_loop a i =
     (if i > 0 \<and> a i > a ((i - 1) div 2)
      then heap_add_loop (swap a i ((i - 1) div 2)) ((i - 1) div 2)
      else a)"
  by pat_completeness auto
termination
  by (relation "measure (\<lambda>(a, i). i)") auto

declare heap_add_loop.simps [simp del]

definition heap_add :: "int \<Rightarrow> heap_s \<Rightarrow> error + heap_s" where
  "heap_add v heap =
     (if \<not> nb_elements heap < HEAP_MAX_SIZE then Inl AssertionFailed
      else
        (let i = nb_elements heap
         in if i < 0 then Inl OutOfBounds
            else Inr \<lparr>array = heap_add_loop ((array heap)(nat i := v)) (nat i),
                      nb_elements = nb_elements heap + 1\<rparr>))"

definition heap_empty :: "heap_s \<Rightarrow> bool" where
  "heap_empty heap = (nb_elements heap = 0)"

definition heap_peek :: "heap_s \<Rightarrow> error + int" where
  "heap_peek heap = (if heap_empty heap then Inl AssertionFailed else Inr (array heap 0))"

text \<open>The index the body of the loop of \<^verbatim>\<open>heap_remove\<close> ends up with in
  \<^verbatim>\<open>largest_index\<close>.\<close>

definition largest_index :: "(nat \<Rightarrow> int) \<Rightarrow> nat \<Rightarrow> nat \<Rightarrow> nat" where
  "largest_index a n i =
     (let left_index = i * 2 + 1;
          right_index = i * 2 + 2;
          largest = i;
          largest = (if left_index < n \<and> a left_index > a largest then left_index else largest);
          largest = (if right_index < n \<and> a right_index > a largest then right_index else largest)
      in largest)"

function heap_remove_loop :: "(nat \<Rightarrow> int) \<Rightarrow> nat \<Rightarrow> nat \<Rightarrow> (nat \<Rightarrow> int)" where
  "heap_remove_loop a n i =
     (if i < n then
        (if largest_index a n i = i then a
         else heap_remove_loop (swap a i (largest_index a n i)) n (largest_index a n i))
      else a)"
  by pat_completeness auto
termination
  by (relation "measure (\<lambda>(a, n, i). n - i)")
    (auto simp: largest_index_def Let_def split: if_splits)

declare heap_remove_loop.simps [simp del]

text \<open>
  \<^verbatim>\<open>heap_remove\<close> asserts only that the handle is not \<^verbatim>\<open>NULL\<close>. Its
  first statement reads \<^verbatim>\<open>array[nb_elements-1]\<close>.
\<close>

definition heap_remove :: "heap_s \<Rightarrow> error + heap_s" where
  "heap_remove heap =
     (let j = nb_elements heap - 1
      in if j < 0 \<or> HEAP_MAX_SIZE \<le> j then Inl OutOfBounds
         else
           (let a = (array heap)(0 := array heap (nat j));
                n = nb_elements heap - 1
            in Inr \<lparr>array = heap_remove_loop a (nat n) 0, nb_elements = n\<rparr>))"

text \<open>
  A run of the heap as \<^verbatim>\<open>main_heap.c\<close> drives it: a number adds it,
  \<^verbatim>\<open>r\<close> removes the head; the run stops at the first failure.
\<close>

datatype heap_op = HAdd int | HRemove

fun heap_step :: "heap_op \<Rightarrow> heap_s \<Rightarrow> error + heap_s" where
  "heap_step (HAdd v) heap = heap_add v heap"
| "heap_step HRemove heap = heap_remove heap"

fun heap_run :: "heap_op list \<Rightarrow> heap_s \<Rightarrow> error + heap_s" where
  "heap_run [] heap = Inr heap"
| "heap_run (op # ops) heap =
     (case heap_step op heap of Inl e \<Rightarrow> Inl e | Inr heap' \<Rightarrow> heap_run ops heap')"

text \<open>
  The words of the heap property. A run stays within capacity and never removes from an
  empty heap when the count of elements, started at \<open>n\<close>, is below
  \<^verbatim>\<open>HEAP_MAX_SIZE\<close> before each addition and positive before each removal. The
  elements added and not yet removed are a multiset: an addition puts its value in, a
  removal takes one copy of the largest out.
\<close>

fun within_capacity :: "heap_op list \<Rightarrow> int \<Rightarrow> bool" where
  "within_capacity [] n = True"
| "within_capacity (HAdd v # ops) n = (n < HEAP_MAX_SIZE \<and> within_capacity ops (n + 1))"
| "within_capacity (HRemove # ops) n = (0 < n \<and> within_capacity ops (n - 1))"

fun pending :: "heap_op list \<Rightarrow> int multiset \<Rightarrow> int multiset" where
  "pending [] m = m"
| "pending (HAdd v # ops) m = pending ops (add_mset v m)"
| "pending (HRemove # ops) m = pending ops (m - {#Max (set_mset m)#})"

text \<open>The cells in use, and the order of the heap on them: no cell is larger than its
  parent.\<close>

definition heap_contents :: "heap_s \<Rightarrow> int multiset" where
  "heap_contents heap = mset (map (array heap) [0..<nat (nb_elements heap)])"

definition is_heap :: "(nat \<Rightarrow> int) \<Rightarrow> nat \<Rightarrow> bool" where
  "is_heap a n = (\<forall>i \<in> {1..<n}. a i \<le> a ((i - 1) div 2))"

definition heap_inv :: "heap_s \<Rightarrow> bool" where
  "heap_inv heap =
     (0 \<le> nb_elements heap \<and> nb_elements heap \<le> HEAP_MAX_SIZE
      \<and> is_heap (array heap) (nat (nb_elements heap)))"

section \<open>\<^verbatim>\<open>find_node\<close> on the memory\<close>

text \<open>
  To say what a function leaves untouched, the nodes live in a memory: a map from
  addresses to nodes, whose links are addresses or \<^verbatim>\<open>NULL\<close> (\<open>None\<close>). The
  node of the AVL file adds the height to the node of the plain file. The function
  \<^verbatim>\<open>find_node\<close> has the same text in \<^verbatim>\<open>simple_bst.c\<close> and
  \<^verbatim>\<open>avl_bst.c\<close>; the model below is that text on either kind of node. It
  returns the result with the memory after the call. A memory need not hold a tree (its
  links may form a cycle), so the recursion counts its calls down from \<open>fuel\<close>, and
  \<open>None\<close> is a call that has not returned within it.
\<close>

record simple_node =
  nvalue :: int
  nleft :: "nat option"
  nright :: "nat option"

record avl_node = simple_node +
  nheight :: int

fun find_node_mem ::
  "nat \<Rightarrow> int \<Rightarrow> nat option \<Rightarrow> (nat \<Rightarrow> 'a simple_node_scheme option)
     \<Rightarrow> ((error + bool) \<times> (nat \<Rightarrow> 'a simple_node_scheme option)) option" where
  "find_node_mem 0 v tree mem = None"
| "find_node_mem (Suc fuel) v tree mem =
     (case tree of
        None \<Rightarrow> Some (Inr False, mem)
      | Some a \<Rightarrow>
          (case mem a of
             None \<Rightarrow> Some (Inl InvalidPointer, mem)
           | Some node \<Rightarrow>
               if nvalue node = v then Some (Inr True, mem)
               else if nvalue node < v then find_node_mem fuel v (nright node) mem
               else find_node_mem fuel v (nleft node) mem))"

text \<open>The memory holds the tree \<open>t\<close> at the pointer \<open>p\<close>.\<close>

fun simple_repr :: "(nat \<Rightarrow> simple_node option) \<Rightarrow> nat option \<Rightarrow> simple_tree \<Rightarrow> bool" where
  "simple_repr mem p SNull = (p = None)"
| "simple_repr mem p (SNode x l r) =
     (case p of
        None \<Rightarrow> False
      | Some a \<Rightarrow>
          (case mem a of
             None \<Rightarrow> False
           | Some node \<Rightarrow>
               nvalue node = x \<and> simple_repr mem (nleft node) l
               \<and> simple_repr mem (nright node) r))"

fun avl_repr :: "(nat \<Rightarrow> avl_node option) \<Rightarrow> nat option \<Rightarrow> avl_tree \<Rightarrow> bool" where
  "avl_repr mem p ANull = (p = None)"
| "avl_repr mem p (ANode x h l r) =
     (case p of
        None \<Rightarrow> False
      | Some a \<Rightarrow>
          (case mem a of
             None \<Rightarrow> False
           | Some node \<Rightarrow>
               nvalue node = x \<and> nheight node = h \<and> avl_repr mem (nleft node) l
               \<and> avl_repr mem (nright node) r))"

section \<open>The invariants of the data model\<close>

text \<open>The keys stored in a tree, and the search-tree order: smaller keys to the left,
  larger keys to the right, at every node.\<close>

fun simple_keys :: "simple_tree \<Rightarrow> int set" where
  "simple_keys SNull = {}"
| "simple_keys (SNode x l r) = insert x (simple_keys l \<union> simple_keys r)"

fun simple_bst :: "simple_tree \<Rightarrow> bool" where
  "simple_bst SNull = True"
| "simple_bst (SNode x l r) =
     (simple_bst l \<and> simple_bst r
      \<and> (\<forall>y \<in> simple_keys l. y < x) \<and> (\<forall>y \<in> simple_keys r. x < y))"

fun avl_keys :: "avl_tree \<Rightarrow> int set" where
  "avl_keys ANull = {}"
| "avl_keys (ANode x h l r) = insert x (avl_keys l \<union> avl_keys r)"

fun avl_bst :: "avl_tree \<Rightarrow> bool" where
  "avl_bst ANull = True"
| "avl_bst (ANode x h l r) =
     (avl_bst l \<and> avl_bst r
      \<and> (\<forall>y \<in> avl_keys l. y < x) \<and> (\<forall>y \<in> avl_keys r. x < y))"

text \<open>The height of a subtree by recursion over its shape, \<open>-1\<close> for the empty tree.\<close>

fun height_rec :: "avl_tree \<Rightarrow> int" where
  "height_rec ANull = -1"
| "height_rec (ANode v h l r) = 1 + max (height_rec l) (height_rec r)"

text \<open>The AVL invariant: at every node the two subtrees differ in height by at most one,
  and the stored field is the height of the subtree.\<close>

fun avl_inv :: "avl_tree \<Rightarrow> bool" where
  "avl_inv ANull = True"
| "avl_inv (ANode v h l r) =
     (avl_inv l \<and> avl_inv r \<and> \<bar>height_rec l - height_rec r\<bar> \<le> 1
      \<and> h = 1 + max (height_rec l) (height_rec r))"

text \<open>
  The red-black invariants: no red node has a red child; the paths from a node to the
  empty positions below it cross the same number of black nodes; the root is black.
\<close>

fun no_red_red :: "rb_tree \<Rightarrow> bool" where
  "no_red_red RNull = True"
| "no_red_red (RNode x l r c) =
     (no_red_red l \<and> no_red_red r \<and> (c = RED \<longrightarrow> \<not> is_red l \<and> \<not> is_red r))"

fun black_height :: "rb_tree \<Rightarrow> nat" where
  "black_height RNull = 0"
| "black_height (RNode x l r c) = black_height l + (if c = BLACK then 1 else 0)"

fun black_balanced :: "rb_tree \<Rightarrow> bool" where
  "black_balanced RNull = True"
| "black_balanced (RNode x l r c) =
     (black_balanced l \<and> black_balanced r \<and> black_height l = black_height r)"

definition rb_inv :: "rb_tree \<Rightarrow> bool" where
  "rb_inv t = (no_red_red t \<and> black_balanced t \<and> \<not> is_red t)"



text \<open>
  What the proofs carry through the recursion. After an insertion of \<open>v\<close> that made a
  subtree taller, the side of its root that \<open>v\<close> went to is the strictly taller one
  (\<open>grown\<close>); an insertion keeps the height or adds one, a deletion keeps it or
  takes one off.
\<close>

definition grown :: "int \<Rightarrow> avl_tree \<Rightarrow> bool" where
  "grown v t = (case t of ANull \<Rightarrow> False
     | ANode x h l r \<Rightarrow> (v < x \<and> height_rec l = height_rec r + 1)
                       \<or> (x < v \<and> height_rec r = height_rec l + 1))"

definition add_ok :: "int \<Rightarrow> avl_tree \<Rightarrow> avl_tree \<Rightarrow> bool" where
  "add_ok v t t' = (avl_inv t' \<and> (height_rec t' = height_rec t
       \<or> (height_rec t' = height_rec t + 1 \<and> (t = ANull \<or> grown v t'))))"

definition remove_ok :: "avl_tree \<Rightarrow> avl_tree \<Rightarrow> bool" where
  "remove_ok t t' = (avl_inv t' \<and> (height_rec t' = height_rec t \<or> height_rec t' = height_rec t - 1))"

section \<open>AVL balance: insertion and deletion keep the invariant\<close>

lemma max_c_max: "max_c a b = max a b"
  by (simp add: max_c_def max_def)

lemma height_rec_ge: "- 1 \<le> height_rec t"
  by (induction t) auto

lemma avl_inv_height: "avl_inv t \<Longrightarrow> avl_binary_tree_height t = height_rec t"
  by (cases t) auto

lemma add_rebalance_balanced:
  assumes "avl_inv l" "avl_inv r" "\<bar>height_rec l - height_rec r\<bar> \<le> 1"
  shows "avl_add_rebalance v x l r = ANode x (1 + max (height_rec l) (height_rec r)) l r"
  using assms by (auto simp: avl_add_rebalance_def avl_inv_height Let_def)

lemma add_rebalance_left:
  assumes "avl_inv l" "avl_inv r" "height_rec l = height_rec r + 2" "grown v l"
  shows "avl_inv (avl_add_rebalance v x l r) \<and> height_rec (avl_add_rebalance v x l r) = height_rec l"
proof -
  obtain lv lh ll lr where l: "l = ANode lv lh ll lr"
    using assms(4) by (cases l) (auto simp: grown_def)
  show ?thesis
  proof (cases "lv < v")
    case True
    then have g: "height_rec lr = height_rec ll + 1" using assms(4) l by (auto simp: grown_def)
    then obtain cv ch cl cr where lr: "lr = ANode cv ch cl cr"
      using height_rec_ge[of ll] by (cases lr) auto
    show ?thesis using assms(1,2,3) True g
      by (auto simp: l lr avl_add_rebalance_def avl_inv_height Let_def max_c_max
          avl_bst_rotate_left_def avl_bst_rotate_right_def)
  next
    case False
    then have g: "height_rec ll = height_rec lr + 1" using assms(4) l by (auto simp: grown_def)
    show ?thesis using assms(1,2,3) False g
      by (auto simp: l avl_add_rebalance_def avl_inv_height Let_def max_c_max
          avl_bst_rotate_left_def avl_bst_rotate_right_def)
  qed
qed

lemma add_rebalance_right:
  assumes "avl_inv l" "avl_inv r" "height_rec r = height_rec l + 2" "grown v r"
  shows "avl_inv (avl_add_rebalance v x l r) \<and> height_rec (avl_add_rebalance v x l r) = height_rec r"
proof -
  obtain rv rh rl rr where r: "r = ANode rv rh rl rr"
    using assms(4) by (cases r) (auto simp: grown_def)
  show ?thesis
  proof (cases "v < rv")
    case True
    then have g: "height_rec rl = height_rec rr + 1" using assms(4) r by (auto simp: grown_def)
    then obtain cv ch cl cr where rl: "rl = ANode cv ch cl cr"
      using height_rec_ge[of rr] by (cases rl) auto
    show ?thesis using assms(1,2,3) True g
      by (auto simp: r rl avl_add_rebalance_def avl_inv_height Let_def max_c_max
          avl_bst_rotate_left_def avl_bst_rotate_right_def)
  next
    case False
    then have g: "height_rec rr = height_rec rl + 1" using assms(4) r by (auto simp: grown_def)
    show ?thesis using assms(1,2,3) False g
      by (auto simp: r avl_add_rebalance_def avl_inv_height Let_def max_c_max
          avl_bst_rotate_left_def avl_bst_rotate_right_def)
  qed
qed

lemma add_step_left:
  assumes l': "add_ok v l l'" and t: "avl_inv (ANode x h l r)" and vx: "v < x"
  shows "add_ok v (ANode x h l r) (avl_add_rebalance v x l' r)"
proof -
  from t have il: "avl_inv l" and ir: "avl_inv r" and b: "\<bar>height_rec l - height_rec r\<bar> \<le> 1" by auto
  from l' have il': "avl_inv l'" by (simp add: add_ok_def)
  show ?thesis
  proof (cases "\<bar>height_rec l' - height_rec r\<bar> \<le> 1")
    case True
    show ?thesis using l' b vx True il' ir
      by (auto simp: add_rebalance_balanced[OF il' ir True] add_ok_def grown_def)
  next
    case False
    with l' b have h2: "height_rec l' = height_rec r + 2" and hl: "height_rec l' = height_rec l + 1"
      by (auto simp: add_ok_def)
    have "l \<noteq> ANull" using h2 hl height_rec_ge[of r] by auto
    with l' hl have g: "grown v l'" by (auto simp: add_ok_def)
    from add_rebalance_left[OF il' ir h2 g, of x] hl h2 show ?thesis
      by (auto simp: add_ok_def)
  qed
qed

lemma add_step_right:
  assumes r': "add_ok v r r'" and t: "avl_inv (ANode x h l r)" and vx: "x < v"
  shows "add_ok v (ANode x h l r) (avl_add_rebalance v x l r')"
proof -
  from t have il: "avl_inv l" and ir: "avl_inv r" and b: "\<bar>height_rec l - height_rec r\<bar> \<le> 1" by auto
  from r' have ir': "avl_inv r'" by (simp add: add_ok_def)
  show ?thesis
  proof (cases "\<bar>height_rec l - height_rec r'\<bar> \<le> 1")
    case True
    show ?thesis using r' b vx True il ir'
      by (auto simp: add_rebalance_balanced[OF il ir' True] add_ok_def grown_def)
  next
    case False
    with r' b have h2: "height_rec r' = height_rec l + 2" and hl: "height_rec r' = height_rec r + 1"
      by (auto simp: add_ok_def)
    have "r \<noteq> ANull" using h2 hl height_rec_ge[of l] by auto
    with r' hl have g: "grown v r'" by (auto simp: add_ok_def)
    from add_rebalance_right[OF il ir' h2 g, of x] hl h2 show ?thesis
      by (auto simp: add_ok_def)
  qed
qed

lemma avl_add_node_ok: "avl_inv t \<Longrightarrow> add_ok v t (avl_add_node v t)"
proof (induction t)
  case ANull
  show ?case by (simp add: add_ok_def avl_add_rebalance_def)
next
  case (ANode x h l r)
  from ANode.prems have il: "avl_inv l" and ir: "avl_inv r"
    and b: "\<bar>height_rec l - height_rec r\<bar> \<le> 1" by auto
  consider "v < x" | "x < v" | "v = x" by linarith
  then show ?case
  proof cases
    case 1
    with add_step_left[OF ANode.IH(1)[OF il] ANode.prems] show ?thesis by simp
  next
    case 2
    with add_step_right[OF ANode.IH(2)[OF ir] ANode.prems] show ?thesis by simp
  next
    case 3
    with ANode.prems show ?thesis
      by (simp add: add_rebalance_balanced[OF il ir b] add_ok_def)
  qed
qed

lemma remove_rebalance_balanced:
  assumes "avl_inv l" "avl_inv r" "\<bar>height_rec l - height_rec r\<bar> \<le> 1"
  shows "avl_remove_rebalance (ANode x h l r) = ANode x (1 + max (height_rec l) (height_rec r)) l r"
  using assms by (auto simp: avl_remove_rebalance_def avl_inv_height Let_def max_c_max)

lemma remove_rebalance_id: "avl_inv t \<Longrightarrow> avl_remove_rebalance t = t"
proof (cases t)
  case ANull
  then show ?thesis by (simp add: avl_remove_rebalance_def)
next
  case (ANode x h l r)
  assume "avl_inv t"
  with ANode show ?thesis by (simp add: remove_rebalance_balanced)
qed

lemma remove_rebalance_left:
  assumes "avl_inv l" "avl_inv r" "height_rec l = height_rec r + 2"
  shows "avl_inv (avl_remove_rebalance (ANode x h l r)) \<and>
     (height_rec (avl_remove_rebalance (ANode x h l r)) = height_rec l
      \<or> height_rec (avl_remove_rebalance (ANode x h l r)) = height_rec l + 1)"
proof -
  obtain lv lh ll lr where l: "l = ANode lv lh ll lr"
    using assms(3) height_rec_ge[of r] by (cases l) auto
  show ?thesis
  proof (cases "height_rec ll \<ge> height_rec lr")
    case True
    show ?thesis using assms True
      by (auto simp: l avl_remove_rebalance_def avl_inv_height Let_def max_c_max
          avl_bst_rotate_left_def avl_bst_rotate_right_def)
  next
    case False
    then obtain cv ch cl cr where lr: "lr = ANode cv ch cl cr"
      using height_rec_ge[of ll] by (cases lr) auto
    show ?thesis using assms False
      by (auto simp: l lr avl_remove_rebalance_def avl_inv_height Let_def max_c_max
          avl_bst_rotate_left_def avl_bst_rotate_right_def)
  qed
qed

lemma remove_rebalance_right:
  assumes "avl_inv l" "avl_inv r" "height_rec r = height_rec l + 2"
  shows "avl_inv (avl_remove_rebalance (ANode x h l r)) \<and>
     (height_rec (avl_remove_rebalance (ANode x h l r)) = height_rec r
      \<or> height_rec (avl_remove_rebalance (ANode x h l r)) = height_rec r + 1)"
proof -
  obtain rv rh rl rr where r: "r = ANode rv rh rl rr"
    using assms(3) height_rec_ge[of l] by (cases r) auto
  show ?thesis
  proof (cases "height_rec rr \<ge> height_rec rl")
    case True
    show ?thesis using assms True
      by (auto simp: r avl_remove_rebalance_def avl_inv_height Let_def max_c_max
          avl_bst_rotate_left_def avl_bst_rotate_right_def)
  next
    case False
    then obtain cv ch cl cr where rl: "rl = ANode cv ch cl cr"
      using height_rec_ge[of rr] by (cases rl) auto
    show ?thesis using assms False
      by (auto simp: r rl avl_remove_rebalance_def avl_inv_height Let_def max_c_max
          avl_bst_rotate_left_def avl_bst_rotate_right_def)
  qed
qed

lemma remove_step_left:
  assumes l': "remove_ok l l'" and t: "avl_inv (ANode x h l r)"
  shows "remove_ok (ANode x h l r) (avl_remove_rebalance (ANode x' h' l' r))"
proof -
  from t have ir: "avl_inv r" and b: "\<bar>height_rec l - height_rec r\<bar> \<le> 1" by auto
  from l' have il': "avl_inv l'" by (simp add: remove_ok_def)
  show ?thesis
  proof (cases "\<bar>height_rec l' - height_rec r\<bar> \<le> 1")
    case True
    show ?thesis using l' b True il' ir
      by (auto simp: remove_rebalance_balanced[OF il' ir True] remove_ok_def)
  next
    case False
    with l' b have h2: "height_rec r = height_rec l' + 2" and hl: "height_rec l' = height_rec l - 1"
      by (auto simp: remove_ok_def)
    from remove_rebalance_right[OF il' ir h2, of x' h'] hl h2 b show ?thesis
      by (auto simp: remove_ok_def)
  qed
qed

lemma remove_step_right:
  assumes r': "remove_ok r r'" and t: "avl_inv (ANode x h l r)"
  shows "remove_ok (ANode x h l r) (avl_remove_rebalance (ANode x' h' l r'))"
proof -
  from t have il: "avl_inv l" and b: "\<bar>height_rec l - height_rec r\<bar> \<le> 1" by auto
  from r' have ir': "avl_inv r'" by (simp add: remove_ok_def)
  show ?thesis
  proof (cases "\<bar>height_rec l - height_rec r'\<bar> \<le> 1")
    case True
    show ?thesis using r' b True il ir'
      by (auto simp: remove_rebalance_balanced[OF il ir' True] remove_ok_def)
  next
    case False
    with r' b have h2: "height_rec l = height_rec r' + 2" and hl: "height_rec r' = height_rec r - 1"
      by (auto simp: remove_ok_def)
    from remove_rebalance_left[OF il ir' h2, of x' h'] hl h2 b show ?thesis
      by (auto simp: remove_ok_def)
  qed
qed

lemma avl_min_value_node_Inr: "t \<noteq> ANull \<Longrightarrow> \<exists>m. avl_min_value_node t = Inr m"
  by (induction t) auto

lemma avl_remove_node_ok:
  "avl_inv t \<Longrightarrow> \<exists>t'. avl_remove_node v t = Inr t' \<and> remove_ok t t'"
proof (induction v t rule: avl_remove_node.induct)
  case (1 v)
  show ?case by (simp add: remove_ok_def)
next
  case (2 v x h l r)
  from "2.prems" have il: "avl_inv l" and ir: "avl_inv r"
    and b: "\<bar>height_rec l - height_rec r\<bar> \<le> 1" by auto
  consider (lt) "v < x" | (gt) "x < v"
    | (nl) "v = x" "l = ANull" | (nr) "v = x" "l \<noteq> ANull" "r = ANull"
    | (two) "v = x" "l \<noteq> ANull" "r \<noteq> ANull" by fastforce
  then show ?case
  proof cases
    case lt
    from "2.IH"(1)[OF lt il] obtain l' where l': "avl_remove_node v l = Inr l'" "remove_ok l l'"
      by blast
    with lt remove_step_left[OF l'(2) "2.prems"] show ?thesis by simp
  next
    case gt
    then have nlt: "\<not> v < x" by simp
    from "2.IH"(2)[OF nlt gt ir] obtain r' where r': "avl_remove_node v r = Inr r'" "remove_ok r r'"
      by blast
    with gt remove_step_right[OF r'(2) "2.prems"] show ?thesis by simp
  next
    case nl
    with ir b show ?thesis
      using height_rec_ge[of r] by (auto simp: remove_rebalance_id remove_ok_def)
  next
    case nr
    with il b show ?thesis
      using height_rec_ge[of l] by (auto simp: remove_rebalance_id remove_ok_def)
  next
    case two
    from avl_min_value_node_Inr[OF two(3)] obtain m where m: "avl_min_value_node r = Inr m"
      by blast
    have n1: "\<not> v < x" and n2: "\<not> x < v" using two(1) by simp_all
    from "2.IH"(3)[OF n1 n2 two(2) two(3) m ir] obtain r'
      where r': "avl_remove_node m r = Inr r'" "remove_ok r r'" by blast
    with two m remove_step_right[OF r'(2) "2.prems"] show ?thesis by simp
  qed
qed

section \<open>Search-tree order and membership\<close>

lemma simple_find_node_iff: "simple_bst t \<Longrightarrow> simple_find_node v t \<longleftrightarrow> v \<in> simple_keys t"
  by (induction t) auto

lemma simple_keys_add: "simple_keys (simple_add_node v t) = insert v (simple_keys t)"
  by (induction t) auto

lemma simple_bst_add: "simple_bst t \<Longrightarrow> simple_bst (simple_add_node v t)"
  by (induction t) (auto simp: simple_keys_add)

lemma simple_min_value_node_least:
  "simple_bst t \<Longrightarrow> t \<noteq> SNull \<Longrightarrow>
   \<exists>m. simple_min_value_node t = Inr m \<and> m \<in> simple_keys t \<and> (\<forall>y \<in> simple_keys t. m \<le> y)"
proof (induction t)
  case SNull
  then show ?case by simp
next
  case (SNode x l r)
  show ?case
  proof (cases "l = SNull")
    case True
    with SNode.prems show ?thesis by auto
  next
    case False
    with SNode.IH(1) SNode.prems obtain m where
      m: "simple_min_value_node l = Inr m" "m \<in> simple_keys l" "\<forall>y \<in> simple_keys l. m \<le> y"
      by auto
    with False SNode.prems show ?thesis by fastforce
  qed
qed

lemma simple_remove_node_keys:
  "simple_bst t \<Longrightarrow>
   \<exists>t'. simple_remove_node v t = Inr t' \<and> simple_bst t' \<and> simple_keys t' = simple_keys t - {v}"
proof (induction v t rule: simple_remove_node.induct)
  case (1 v)
  show ?case by simp
next
  case (2 v x l r)
  from "2.prems" have bl: "simple_bst l" and br: "simple_bst r"
    and ol: "\<forall>y \<in> simple_keys l. y < x" and orr: "\<forall>y \<in> simple_keys r. x < y" by auto
  consider (lt) "v < x" | (gt) "x < v"
    | (nl) "v = x" "l = SNull" | (nr) "v = x" "l \<noteq> SNull" "r = SNull"
    | (two) "v = x" "l \<noteq> SNull" "r \<noteq> SNull" by fastforce
  then show ?case
  proof cases
    case lt
    from "2.IH"(1)[OF lt bl] obtain l' where
      l': "simple_remove_node v l = Inr l'" "simple_bst l'" "simple_keys l' = simple_keys l - {v}"
      by blast
    with lt br ol orr show ?thesis by auto
  next
    case gt
    then have nlt: "\<not> v < x" by simp
    from "2.IH"(2)[OF nlt gt br] obtain r' where
      r': "simple_remove_node v r = Inr r'" "simple_bst r'" "simple_keys r' = simple_keys r - {v}"
      by blast
    with gt bl ol orr show ?thesis by auto
  next
    case nl
    with br orr show ?thesis by auto
  next
    case nr
    with bl ol show ?thesis by auto
  next
    case two
    from simple_min_value_node_least[OF br two(3)] obtain m where
      m: "simple_min_value_node r = Inr m" "m \<in> simple_keys r" "\<forall>y \<in> simple_keys r. m \<le> y"
      by blast
    have n1: "\<not> v < x" and n2: "\<not> x < v" using two(1) by simp_all
    from "2.IH"(3)[OF n1 n2 two(2) two(3) m(1) br] obtain r' where
      r': "simple_remove_node m r = Inr r'" "simple_bst r'" "simple_keys r' = simple_keys r - {m}"
      by blast
    have xm: "x < m" using m(2) orr by blast
    have "\<forall>y \<in> simple_keys r'. m < y" using r'(3) m(3) by fastforce
    moreover have "\<forall>y \<in> simple_keys l. y < m" using ol xm by fastforce
    moreover have "insert m (simple_keys l \<union> simple_keys r') = simple_keys (SNode x l r) - {v}"
      using two(1) r'(3) m(2) ol orr by fastforce
    ultimately show ?thesis using two m(1) r'(1,2) bl by simp
  qed
qed

lemma avl_find_node_iff: "avl_bst t \<Longrightarrow> avl_find_node v t \<longleftrightarrow> v \<in> avl_keys t"
  by (induction t) auto

lemma keys_rotate_left: "avl_keys (avl_bst_rotate_left t) = avl_keys t"
  by (auto simp: avl_bst_rotate_left_def Let_def split: avl_tree.splits)

lemma keys_rotate_right: "avl_keys (avl_bst_rotate_right t) = avl_keys t"
  by (auto simp: avl_bst_rotate_right_def Let_def split: avl_tree.splits)

lemma bst_rotate_left: "avl_bst t \<Longrightarrow> avl_bst (avl_bst_rotate_left t)"
  by (fastforce simp: avl_bst_rotate_left_def Let_def split: avl_tree.splits)

lemma bst_rotate_right: "avl_bst t \<Longrightarrow> avl_bst (avl_bst_rotate_right t)"
  by (fastforce simp: avl_bst_rotate_right_def Let_def split: avl_tree.splits)

lemma keys_add_rebalance: "avl_keys (avl_add_rebalance v x l r) = insert x (avl_keys l \<union> avl_keys r)"
  by (simp add: avl_add_rebalance_def Let_def keys_rotate_left keys_rotate_right)

lemma bst_add_rebalance:
  "avl_bst (ANode x h l r) \<Longrightarrow> avl_bst (avl_add_rebalance v x l r)"
  by (simp add: avl_add_rebalance_def Let_def keys_rotate_left keys_rotate_right
      bst_rotate_left bst_rotate_right)

lemma keys_remove_rebalance: "avl_keys (avl_remove_rebalance t) = avl_keys t"
  by (cases t) (simp_all add: avl_remove_rebalance_def Let_def keys_rotate_left keys_rotate_right)

lemma bst_remove_rebalance: "avl_bst t \<Longrightarrow> avl_bst (avl_remove_rebalance t)"
  by (cases t) (simp_all add: avl_remove_rebalance_def Let_def keys_rotate_left keys_rotate_right
      bst_rotate_left bst_rotate_right)

lemma avl_keys_add: "avl_keys (avl_add_node v t) = insert v (avl_keys t)"
  by (induction t) (auto simp: keys_add_rebalance)

lemma avl_bst_add: "avl_bst t \<Longrightarrow> avl_bst (avl_add_node v t)"
proof (induction t)
  case ANull
  show ?case by (simp add: bst_add_rebalance[of v 0])
next
  case (ANode x h l r)
  then show ?case
    by (auto intro!: bst_add_rebalance[of x h] simp: avl_keys_add)
qed

lemma avl_min_value_node_least:
  "avl_bst t \<Longrightarrow> t \<noteq> ANull \<Longrightarrow>
   \<exists>m. avl_min_value_node t = Inr m \<and> m \<in> avl_keys t \<and> (\<forall>y \<in> avl_keys t. m \<le> y)"
proof (induction t)
  case ANull
  then show ?case by simp
next
  case (ANode x h l r)
  show ?case
  proof (cases "l = ANull")
    case True
    with ANode.prems show ?thesis by auto
  next
    case False
    with ANode.IH(1) ANode.prems obtain m where
      m: "avl_min_value_node l = Inr m" "m \<in> avl_keys l" "\<forall>y \<in> avl_keys l. m \<le> y"
      by auto
    with False ANode.prems show ?thesis by fastforce
  qed
qed

lemma avl_remove_node_keys:
  "avl_bst t \<Longrightarrow>
   \<exists>t'. avl_remove_node v t = Inr t' \<and> avl_bst t' \<and> avl_keys t' = avl_keys t - {v}"
proof (induction v t rule: avl_remove_node.induct)
  case (1 v)
  show ?case by simp
next
  case (2 v x h l r)
  from "2.prems" have bl: "avl_bst l" and br: "avl_bst r"
    and ol: "\<forall>y \<in> avl_keys l. y < x" and orr: "\<forall>y \<in> avl_keys r. x < y" by auto
  consider (lt) "v < x" | (gt) "x < v"
    | (nl) "v = x" "l = ANull" | (nr) "v = x" "l \<noteq> ANull" "r = ANull"
    | (two) "v = x" "l \<noteq> ANull" "r \<noteq> ANull" by fastforce
  then show ?case
  proof cases
    case lt
    from "2.IH"(1)[OF lt bl] obtain l' where
      l': "avl_remove_node v l = Inr l'" "avl_bst l'" "avl_keys l' = avl_keys l - {v}"
      by blast
    have "avl_bst (ANode x h l' r)" using l' br ol orr by auto
    from bst_remove_rebalance[OF this] show ?thesis
      using lt l' ol orr by (auto simp: keys_remove_rebalance)
  next
    case gt
    then have nlt: "\<not> v < x" by simp
    from "2.IH"(2)[OF nlt gt br] obtain r' where
      r': "avl_remove_node v r = Inr r'" "avl_bst r'" "avl_keys r' = avl_keys r - {v}"
      by blast
    have "avl_bst (ANode x h l r')" using r' bl ol orr by auto
    from bst_remove_rebalance[OF this] show ?thesis
      using gt r' ol orr by (auto simp: keys_remove_rebalance)
  next
    case nl
    with br orr show ?thesis by (auto simp: keys_remove_rebalance bst_remove_rebalance)
  next
    case nr
    with bl ol show ?thesis by (auto simp: keys_remove_rebalance bst_remove_rebalance)
  next
    case two
    from avl_min_value_node_least[OF br two(3)] obtain m where
      m: "avl_min_value_node r = Inr m" "m \<in> avl_keys r" "\<forall>y \<in> avl_keys r. m \<le> y"
      by blast
    have n1: "\<not> v < x" and n2: "\<not> x < v" using two(1) by simp_all
    from "2.IH"(3)[OF n1 n2 two(2) two(3) m(1) br] obtain r' where
      r': "avl_remove_node m r = Inr r'" "avl_bst r'" "avl_keys r' = avl_keys r - {m}"
      by blast
    have xm: "x < m" using m(2) orr by blast
    have "\<forall>y \<in> avl_keys r'. m < y" using r'(3) m(3) by fastforce
    moreover have "\<forall>y \<in> avl_keys l. y < m" using ol xm by fastforce
    ultimately have "avl_bst (ANode m h l r')" using bl r'(2) by simp
    from bst_remove_rebalance[OF this]
    have b: "avl_bst (avl_remove_rebalance (ANode m h l r'))" .
    have "insert m (avl_keys l \<union> avl_keys r') = avl_keys (ANode x h l r) - {v}"
      using two(1) r'(3) m(2) ol orr by fastforce
    then show ?thesis using two m(1) r'(1) b by (simp add: keys_remove_rebalance)
  qed
qed


lemma simple_add_node_present: "simple_find_node v t \<Longrightarrow> simple_add_node v t = t"
  by (induction t) (auto split: if_splits)

lemma simple_remove_node_absent: "\<not> simple_find_node v t \<Longrightarrow> simple_remove_node v t = Inr t"
  by (induction t) (auto split: if_splits)

section \<open>The claims on the two search trees\<close>

text \<open>
  C1. Starting from any tree that satisfies the AVL invariant (the empty tree included),
  the tree returned by \<^verbatim>\<open>add_node\<close> and the tree returned by
  \<^verbatim>\<open>remove_node\<close> satisfy it again: at every node the heights of the two
  subtrees differ by at most one and the stored height is the height of the subtree, with
  \<open>-1\<close> for the empty subtree. The deletion returns a tree: its assertion does not fail.
\<close>

theorem avl_invariant_preserved:
  "avl_inv t \<Longrightarrow>
     avl_inv (avl_add_node v t) \<and> (\<exists>t'. avl_remove_node w t = Inr t' \<and> avl_inv t')"
  using avl_add_node_ok[of t v] avl_remove_node_ok[of t w]
  by (auto simp: add_ok_def remove_ok_def)

theorem avl_invariant_preserved_witness:
  "avl_inv (ANode 20 2 (ANode 10 0 ANull ANull) (ANode 30 1 ANull (ANode 40 0 ANull ANull)))
   \<and> avl_add_node 50 (ANode 20 2 (ANode 10 0 ANull ANull) (ANode 30 1 ANull (ANode 40 0 ANull ANull)))
       = ANode 20 2 (ANode 10 0 ANull ANull) (ANode 40 1 (ANode 30 0 ANull ANull) (ANode 50 0 ANull ANull))
   \<and> avl_inv (avl_add_node 50
        (ANode 20 2 (ANode 10 0 ANull ANull) (ANode 30 1 ANull (ANode 40 0 ANull ANull))))
   \<and> avl_remove_node 10 (ANode 20 2 (ANode 10 0 ANull ANull) (ANode 30 1 ANull (ANode 40 0 ANull ANull)))
       = Inr (ANode 30 1 (ANode 20 0 ANull ANull) (ANode 40 0 ANull ANull))
   \<and> (\<exists>t'. avl_remove_node 10
          (ANode 20 2 (ANode 10 0 ANull ANull) (ANode 30 1 ANull (ANode 40 0 ANull ANull))) = Inr t'
        \<and> avl_inv t')"
proof -
  let ?t = "ANode 20 2 (ANode 10 0 ANull ANull) (ANode 30 1 ANull (ANode 40 0 ANull ANull))"
  have h: "avl_inv ?t" by simp
  have a: "avl_add_node 50 ?t
     = ANode 20 2 (ANode 10 0 ANull ANull) (ANode 40 1 (ANode 30 0 ANull ANull) (ANode 50 0 ANull ANull))"
    by (simp add: avl_add_rebalance_def avl_bst_rotate_left_def avl_bst_rotate_right_def max_c_def)
  have r: "avl_remove_node 10 ?t = Inr (ANode 30 1 (ANode 20 0 ANull ANull) (ANode 40 0 ANull ANull))"
    by (simp add: avl_remove_rebalance_def avl_bst_rotate_left_def avl_bst_rotate_right_def max_c_def)
  from avl_invariant_preserved[OF h, of 50 10] h a r show ?thesis by simp
qed



text \<open>
  C6. For the plain search tree and for the AVL tree, on every tree that is ordered as a
  search tree: \<^verbatim>\<open>find_node\<close> of a value right after \<^verbatim>\<open>add_node\<close>
  of it returns true, and right after \<^verbatim>\<open>remove_node\<close> of it returns false.
\<close>

theorem insert_find_delete_find:
  "simple_bst s \<Longrightarrow> avl_bst a \<Longrightarrow>
     simple_find_node v (simple_add_node v s)
     \<and> (\<exists>s'. simple_remove_node v s = Inr s' \<and> \<not> simple_find_node v s')
     \<and> avl_find_node v (avl_add_node v a)
     \<and> (\<exists>a'. avl_remove_node v a = Inr a' \<and> \<not> avl_find_node v a')"
proof -
  assume s: "simple_bst s" and a: "avl_bst a"
  have 1: "simple_find_node v (simple_add_node v s)"
    using simple_bst_add[OF s, of v] by (simp add: simple_find_node_iff simple_keys_add)
  from simple_remove_node_keys[OF s, of v]
  have 2: "\<exists>s'. simple_remove_node v s = Inr s' \<and> \<not> simple_find_node v s'"
    by (auto simp: simple_find_node_iff)
  have 3: "avl_find_node v (avl_add_node v a)"
    using avl_bst_add[OF a, of v] by (simp add: avl_find_node_iff avl_keys_add)
  from avl_remove_node_keys[OF a, of v]
  have 4: "\<exists>a'. avl_remove_node v a = Inr a' \<and> \<not> avl_find_node v a'"
    by (auto simp: avl_find_node_iff)
  from 1 2 3 4 show ?thesis by blast
qed

theorem insert_find_delete_find_witness:
  "simple_bst (SNode 5 (SNode 3 SNull SNull) (SNode 8 SNull SNull))
   \<and> avl_bst (ANode 20 1 (ANode 10 0 ANull ANull) (ANode 30 0 ANull ANull))
   \<and> simple_find_node 5 (simple_add_node 5 (SNode 5 (SNode 3 SNull SNull) (SNode 8 SNull SNull)))
   \<and> simple_remove_node 5 (SNode 5 (SNode 3 SNull SNull) (SNode 8 SNull SNull))
       = Inr (SNode 8 (SNode 3 SNull SNull) SNull)
   \<and> \<not> simple_find_node 5 (SNode 8 (SNode 3 SNull SNull) SNull)
   \<and> avl_find_node 5 (avl_add_node 5 (ANode 20 1 (ANode 10 0 ANull ANull) (ANode 30 0 ANull ANull)))
   \<and> (\<exists>a'. avl_remove_node 5 (ANode 20 1 (ANode 10 0 ANull ANull) (ANode 30 0 ANull ANull)) = Inr a'
         \<and> \<not> avl_find_node 5 a')"
proof -
  let ?s = "SNode 5 (SNode 3 SNull SNull) (SNode 8 SNull SNull)"
  let ?a = "ANode 20 1 (ANode 10 0 ANull ANull) (ANode 30 0 ANull ANull)"
  have s: "simple_bst ?s" by simp
  have a: "avl_bst ?a" by simp
  have r: "simple_remove_node 5 ?s = Inr (SNode 8 (SNode 3 SNull SNull) SNull)" by simp
  from insert_find_delete_find[OF s a, of 5] s a r show ?thesis by simp
qed

text \<open>
  C9. In the plain search tree, \<^verbatim>\<open>add_node\<close> of a value that the tree holds and
  \<^verbatim>\<open>remove_node\<close> of a value that it does not hold return the tree as it was;
  the number of nodes and the dumped sequence are those of before.
\<close>

theorem simple_noop:
  "simple_bst t \<Longrightarrow>
     (v \<in> simple_keys t \<longrightarrow>
        simple_add_node v t = t
        \<and> simple_binary_tree_nodes (simple_add_node v t) = simple_binary_tree_nodes t
        \<and> simple_dump_tree (simple_add_node v t) asc = simple_dump_tree t asc)
     \<and> (v \<notin> simple_keys t \<longrightarrow>
        simple_remove_node v t = Inr t
        \<and> (\<exists>t'. simple_remove_node v t = Inr t'
              \<and> simple_binary_tree_nodes t' = simple_binary_tree_nodes t
              \<and> simple_dump_tree t' asc = simple_dump_tree t asc))"
  using simple_add_node_present[of v t] simple_remove_node_absent[of v t]
  by (simp add: simple_find_node_iff)

theorem simple_noop_witness:
  "simple_bst (SNode 5 (SNode 3 SNull SNull) (SNode 8 SNull SNull))
   \<and> 3 \<in> simple_keys (SNode 5 (SNode 3 SNull SNull) (SNode 8 SNull SNull))
   \<and> simple_add_node 3 (SNode 5 (SNode 3 SNull SNull) (SNode 8 SNull SNull))
       = SNode 5 (SNode 3 SNull SNull) (SNode 8 SNull SNull)
   \<and> 4 \<notin> simple_keys (SNode 5 (SNode 3 SNull SNull) (SNode 8 SNull SNull))
   \<and> simple_remove_node 4 (SNode 5 (SNode 3 SNull SNull) (SNode 8 SNull SNull))
       = Inr (SNode 5 (SNode 3 SNull SNull) (SNode 8 SNull SNull))"
proof -
  let ?t = "SNode 5 (SNode 3 SNull SNull) (SNode 8 SNull SNull)"
  have b: "simple_bst ?t" by simp
  have "3 \<in> simple_keys ?t" and "4 \<notin> simple_keys ?t" by simp_all
  with simple_noop[OF b, of 3 True] simple_noop[OF b, of 4 True] b show ?thesis by simp
qed

section \<open>The heap: contents and order through the two loops\<close>

lemma swap_apply: "swap a i j k = (if k = j then a i else if k = i then a j else a k)"
  by (simp add: swap_def Let_def)

lemma mset_map_upd:
  "i < n \<Longrightarrow> mset (map (a(i := v)) [0..<n]) = add_mset v (mset (map a [0..<n]) - {#a i#})"
proof -
  assume i: "i < n"
  have "map (a(i := v)) [0..<n] = (map a [0..<n])[i := v]"
    using i by (auto simp: list_eq_iff_nth_eq nth_list_update)
  then show ?thesis using i mset_update[of i "map a [0..<n]" v] by (simp del: mset_map)
qed

lemma mset_map_swap:
  assumes "i < n" "j < n"
  shows "mset (map (swap a i j) [0..<n]) = mset (map a [0..<n])"
proof -
  let ?xs = "map a [0..<n]"
  have "map (swap a i j) [0..<n] = ?xs[i := ?xs ! j, j := ?xs ! i]"
    using assms by (auto simp: list_eq_iff_nth_eq nth_list_update swap_apply)
  then show ?thesis
    using mset_swap[of j ?xs i] assms by (simp del: mset_map)
qed

lemma heap_add_loop_mset:
  "i < n \<Longrightarrow> mset (map (heap_add_loop a i) [0..<n]) = mset (map a [0..<n])"
proof (induction a i rule: heap_add_loop.induct)
  case (1 a i)
  show ?case
  proof (cases "i > 0 \<and> a i > a ((i - 1) div 2)")
    case True
    then have p: "(i - 1) div 2 < n" using "1.prems" by linarith
    from "1.IH"[OF True p] True mset_map_swap[OF "1.prems" p, of a]
    show ?thesis by (subst heap_add_loop.simps) (auto simp del: mset_map)
  next
    case False
    then show ?thesis by (subst heap_add_loop.simps) (auto simp del: mset_map)
  qed
qed

lemma largest_index_cases:
  "largest_index a n i = i \<or> (i < largest_index a n i \<and> largest_index a n i < n
      \<and> (largest_index a n i = 2 * i + 1 \<or> largest_index a n i = 2 * i + 2))"
  by (auto simp: largest_index_def Let_def)

lemma heap_remove_loop_mset:
  "mset (map (heap_remove_loop a n i) [0..<n]) = mset (map a [0..<n])"
proof (induction a n i rule: heap_remove_loop.induct)
  case (1 a n i)
  show ?case
  proof (cases "i < n \<and> largest_index a n i \<noteq> i")
    case True
    with largest_index_cases[of a n i] have k: "largest_index a n i < n" by auto
    from True have t1: "i < n" and t2: "largest_index a n i \<noteq> i" by auto
    from "1.IH"[OF t1 t2] mset_map_swap[OF t1 k, of a] True
    show ?thesis by (subst heap_remove_loop.simps) (auto simp del: mset_map)
  next
    case False
    then show ?thesis by (subst heap_remove_loop.simps) (auto simp del: mset_map)
  qed
qed

lemma is_heap_root_max: "is_heap a n \<Longrightarrow> i < n \<Longrightarrow> a i \<le> a 0"
proof (induction i rule: less_induct)
  case (less i)
  show ?case
  proof (cases "i = 0")
    case True
    then show ?thesis by simp
  next
    case False
    then have p: "(i - 1) div 2 < i" by linarith
    from less.prems False have "a i \<le> a ((i - 1) div 2)" by (auto simp: is_heap_def)
    moreover from less.IH[OF p less.prems(1)] p less.prems(2) have "a ((i - 1) div 2) \<le> a 0" by simp
    ultimately show ?thesis by linarith
  qed
qed

lemma heap_add_loop_heap:
  assumes "i < n"
    and "\<forall>j. 0 < j \<and> j < n \<and> j \<noteq> i \<longrightarrow> a j \<le> a ((j - 1) div 2)"
    and "\<forall>j. 0 < j \<and> j < n \<and> (j - 1) div 2 = i \<and> 0 < i \<longrightarrow> a j \<le> a ((i - 1) div 2)"
  shows "is_heap (heap_add_loop a i) n"
  using assms
proof (induction a i rule: heap_add_loop.induct)
  case (1 a i)
  let ?p = "(i - 1) div 2"
  show ?case
  proof (cases "i > 0 \<and> a i > a ?p")
    case True
    then have ip: "?p < i" by linarith
    then have pn: "?p < n" using "1.prems"(1) by linarith
    let ?b = "swap a i ?p"
    have A: "\<forall>j. 0 < j \<and> j < n \<and> j \<noteq> ?p \<longrightarrow> ?b j \<le> ?b ((j - 1) div 2)"
    proof (intro allI impI)
      fix j assume j: "0 < j \<and> j < n \<and> j \<noteq> ?p"
      show "?b j \<le> ?b ((j - 1) div 2)"
      proof (cases "j = i")
        case True
        with \<open>i > 0 \<and> a i > a ?p\<close> ip show ?thesis by (simp add: swap_apply)
      next
        case False
        with j have aj: "a j \<le> a ((j - 1) div 2)" using "1.prems"(2) by blast
        consider "(j - 1) div 2 = i" | "(j - 1) div 2 = ?p" | "(j - 1) div 2 \<noteq> i" "(j - 1) div 2 \<noteq> ?p"
          by blast
        then show ?thesis
        proof cases
          case 1
          with j True "1.prems"(3) have "a j \<le> a ?p" by blast
          with 1 j False ip show ?thesis by (simp add: swap_apply)
        next
          case 2
          with aj True j False ip show ?thesis by (simp add: swap_apply)
        next
          case 3
          with aj j False show ?thesis by (simp add: swap_apply)
        qed
      qed
    qed
    have B: "\<forall>j. 0 < j \<and> j < n \<and> (j - 1) div 2 = ?p \<and> 0 < ?p \<longrightarrow> ?b j \<le> ?b ((?p - 1) div 2)"
    proof (intro allI impI)
      fix j assume j: "0 < j \<and> j < n \<and> (j - 1) div 2 = ?p \<and> 0 < ?p"
      then have pp: "(?p - 1) div 2 < ?p" by linarith
      from j pn ip "1.prems"(2) have app: "a ?p \<le> a ((?p - 1) div 2)" by auto
      have jp: "j \<noteq> ?p" using j by linarith
      have bpp: "?b ((?p - 1) div 2) = a ((?p - 1) div 2)" using pp ip by (simp add: swap_apply)
      show "?b j \<le> ?b ((?p - 1) div 2)"
      proof (cases "j = i")
        case True
        with app bpp jp show ?thesis by (simp add: swap_apply)
      next
        case False
        with j "1.prems"(2) have "a j \<le> a ?p" by auto
        with app bpp jp False show ?thesis by (simp add: swap_apply)
      qed
    qed
    from "1.IH"[OF True pn A B] True show ?thesis
      by (subst heap_add_loop.simps) simp
  next
    case False
    have "is_heap a n" unfolding is_heap_def
    proof
      fix j assume "j \<in> {1..<n}"
      then have j: "0 < j" "j < n" by auto
      show "a j \<le> a ((j - 1) div 2)"
      proof (cases "j = i")
        case True
        with False j show ?thesis by auto
      next
        case False
        with j "1.prems"(2) show ?thesis by blast
      qed
    qed
    with False show ?thesis by (subst heap_add_loop.simps) auto
  qed
qed

lemma child_cases: "0 < j \<Longrightarrow> (j - 1) div 2 = i \<Longrightarrow> j = i * 2 + 1 \<or> j = i * 2 + 2"
  for i j :: nat
  by linarith

lemma largest_index_stay:
  assumes "largest_index a n i = i" "j < n" "(j - 1) div 2 = i" "0 < j"
  shows "a j \<le> a i"
proof -
  from child_cases[OF assms(4,3)] have "j = i * 2 + 1 \<or> j = i * 2 + 2" .
  then show ?thesis
  proof
    assume "j = i * 2 + 1"
    with assms(1,2) show ?thesis
      by (simp add: largest_index_def Let_def split: if_splits)
  next
    assume "j = i * 2 + 2"
    with assms(1,2) show ?thesis
      by (simp add: largest_index_def Let_def split: if_splits)
  qed
qed

lemma largest_index_move:
  assumes "largest_index a n i = k" "k \<noteq> i"
  shows "i < k \<and> k < n \<and> (k - 1) div 2 = i \<and> a i < a k
     \<and> (\<forall>j. 0 < j \<and> j < n \<and> (j - 1) div 2 = i \<longrightarrow> a j \<le> a k)"
proof -
  have 1: "i < k \<and> k < n \<and> (k - 1) div 2 = i \<and> a i < a k"
    using assms by (auto simp: largest_index_def Let_def split: if_splits)
  have 2: "a j \<le> a k" if j: "0 < j" "j < n" "(j - 1) div 2 = i" for j
  proof -
    from child_cases[OF j(1,3)] have "j = i * 2 + 1 \<or> j = i * 2 + 2" .
    then show ?thesis
    proof
      assume "j = i * 2 + 1"
      with assms j(2) show ?thesis
        by (simp add: largest_index_def Let_def split: if_splits)
    next
      assume "j = i * 2 + 2"
      with assms j(2) show ?thesis
        by (simp add: largest_index_def Let_def split: if_splits)
    qed
  qed
  from 1 2 show ?thesis by blast
qed

lemma heap_remove_loop_heap:
  assumes "\<forall>j. 0 < j \<and> j < n \<and> (j - 1) div 2 \<noteq> i \<longrightarrow> a j \<le> a ((j - 1) div 2)"
    and "\<forall>j. 0 < j \<and> j < n \<and> (j - 1) div 2 = i \<and> 0 < i \<longrightarrow> a j \<le> a ((i - 1) div 2)"
  shows "is_heap (heap_remove_loop a n i) n"
  using assms
proof (induction a n i rule: heap_remove_loop.induct)
  case (1 a n i)
  let ?k = "largest_index a n i"
  show ?case
  proof (cases "i < n \<and> ?k \<noteq> i")
    case True
    then have t1: "i < n" and t2: "?k \<noteq> i" by auto
    from largest_index_move[OF refl t2] have ik: "i < ?k" and kn: "?k < n"
      and pk: "(?k - 1) div 2 = i" and aik: "a i < a ?k"
      and big: "\<forall>j. 0 < j \<and> j < n \<and> (j - 1) div 2 = i \<longrightarrow> a j \<le> a ?k" by auto
    let ?b = "swap a i ?k"
    have A: "\<forall>j. 0 < j \<and> j < n \<and> (j - 1) div 2 \<noteq> ?k \<longrightarrow> ?b j \<le> ?b ((j - 1) div 2)"
    proof (intro allI impI)
      fix j assume j: "0 < j \<and> j < n \<and> (j - 1) div 2 \<noteq> ?k"
      consider "j = ?k" | "j = i" | "j \<noteq> ?k" "j \<noteq> i" "(j - 1) div 2 = i"
        | "j \<noteq> ?k" "j \<noteq> i" "(j - 1) div 2 \<noteq> i" by blast
      then show "?b j \<le> ?b ((j - 1) div 2)"
      proof cases
        case 1
        with pk aik ik show ?thesis by (simp add: swap_apply)
      next
        case 2
        with j have i0: "0 < i" by simp
        have pi: "(i - 1) div 2 < i" using i0 by linarith
        from "1.prems"(2) kn pk i0 ik have "a ?k \<le> a ((i - 1) div 2)" by auto
        with 2 pi ik show ?thesis by (simp add: swap_apply)
      next
        case 3
        with j big have "a j \<le> a ?k" by blast
        with 3 ik show ?thesis by (simp add: swap_apply)
      next
        case 4
        with j "1.prems"(1) have "a j \<le> a ((j - 1) div 2)" by blast
        with 4 j show ?thesis by (simp add: swap_apply)
      qed
    qed
    have B: "\<forall>j. 0 < j \<and> j < n \<and> (j - 1) div 2 = ?k \<and> 0 < ?k \<longrightarrow> ?b j \<le> ?b ((?k - 1) div 2)"
    proof (intro allI impI)
      fix j assume j: "0 < j \<and> j < n \<and> (j - 1) div 2 = ?k \<and> 0 < ?k"
      then have jk: "?k < j" by linarith
      from j ik "1.prems"(1) have "a j \<le> a ?k" by auto
      with jk ik pk show "?b j \<le> ?b ((?k - 1) div 2)" by (simp add: swap_apply)
    qed
    from "1.IH"[OF t1 t2 A B] True show ?thesis
      by (subst heap_remove_loop.simps) simp
  next
    case False
    have "is_heap a n" unfolding is_heap_def
    proof
      fix j assume "j \<in> {1..<n}"
      then have j: "0 < j" "j < n" by auto
      then have pj: "(j - 1) div 2 < n" by linarith
      show "a j \<le> a ((j - 1) div 2)"
      proof (cases "(j - 1) div 2 = i")
        case True
        with pj False have "?k = i" by auto
        from largest_index_stay[OF this j(2) True j(1)] True show ?thesis by simp
      next
        case False
        with j "1.prems"(1) show ?thesis by blast
      qed
    qed
    with False show ?thesis by (subst heap_remove_loop.simps) auto
  qed
qed

lemma heap_add_ok:
  assumes inv: "heap_inv h" and cap: "nb_elements h < HEAP_MAX_SIZE"
  shows "\<exists>h'. heap_add v h = Inr h' \<and> heap_inv h' \<and> nb_elements h' = nb_elements h + 1
           \<and> heap_contents h' = add_mset v (heap_contents h)"
proof -
  let ?n = "nat (nb_elements h)"
  let ?a = "(array h)(?n := v)"
  let ?h' = "\<lparr>array = heap_add_loop ?a ?n, nb_elements = nb_elements h + 1\<rparr>"
  from inv have n0: "0 \<le> nb_elements h" and hp: "is_heap (array h) ?n"
    by (auto simp: heap_inv_def)
  have eq: "heap_add v h = Inr ?h'" using n0 cap by (simp add: heap_add_def Let_def)
  have n1: "nat (nb_elements h + 1) = Suc ?n" using n0 by simp
  have A: "\<forall>j. 0 < j \<and> j < Suc ?n \<and> j \<noteq> ?n \<longrightarrow> ?a j \<le> ?a ((j - 1) div 2)"
  proof (intro allI impI)
    fix j assume j: "0 < j \<and> j < Suc ?n \<and> j \<noteq> ?n"
    then have "(j - 1) div 2 < ?n" by linarith
    with j hp show "?a j \<le> ?a ((j - 1) div 2)" by (auto simp: is_heap_def)
  qed
  have B: "\<forall>j. 0 < j \<and> j < Suc ?n \<and> (j - 1) div 2 = ?n \<and> 0 < ?n \<longrightarrow> ?a j \<le> ?a ((?n - 1) div 2)"
    by (intro allI impI) linarith
  have "is_heap (heap_add_loop ?a ?n) (Suc ?n)"
    by (rule heap_add_loop_heap[OF _ A B]) simp
  then have i': "heap_inv ?h'" using n0 cap n1 by (simp add: heap_inv_def)
  have "mset (map (heap_add_loop ?a ?n) [0..<Suc ?n]) = mset (map ?a [0..<Suc ?n])"
    by (rule heap_add_loop_mset) simp
  also have "\<dots> = add_mset v (mset (map (array h) [0..<?n]))"
    by (simp del: mset_map)
  finally have "heap_contents ?h' = add_mset v (heap_contents h)"
    using n1 by (simp add: heap_contents_def del: mset_map upt_Suc)
  with eq i' show ?thesis by simp
qed

lemma mset_map_drop_head:
  "0 < m \<Longrightarrow> mset (map (a(0 := a m)) [0..<m]) = mset (map a [0..<Suc m]) - {#a 0#}"
proof -
  assume m: "0 < m"
  have "mset (map (a(0 := a m)) [0..<m]) = add_mset (a m) (mset (map a [0..<m]) - {#a 0#})"
    using m by (rule mset_map_upd)
  moreover have "a 0 \<in># mset (map a [0..<m])" using m by (simp del: mset_map) 
  ultimately show ?thesis by (simp del: mset_map)
qed

lemma heap_remove_ok:
  assumes inv: "heap_inv h" and ne: "0 < nb_elements h"
  shows "\<exists>h'. heap_remove h = Inr h' \<and> heap_inv h' \<and> nb_elements h' = nb_elements h - 1
           \<and> heap_contents h' = heap_contents h - {#array h 0#}"
proof -
  let ?m = "nat (nb_elements h - 1)"
  let ?a = "(array h)(0 := array h ?m)"
  let ?h' = "\<lparr>array = heap_remove_loop ?a ?m 0, nb_elements = nb_elements h - 1\<rparr>"
  from inv have cap: "nb_elements h \<le> HEAP_MAX_SIZE" and hp: "is_heap (array h) (nat (nb_elements h))"
    by (auto simp: heap_inv_def)
  have eq: "heap_remove h = Inr ?h'" using ne cap by (simp add: heap_remove_def Let_def)
  have n1: "nat (nb_elements h) = Suc ?m" using ne by simp
  have A: "\<forall>j. 0 < j \<and> j < ?m \<and> (j - 1) div 2 \<noteq> 0 \<longrightarrow> ?a j \<le> ?a ((j - 1) div 2)"
    using hp n1 by (auto simp: is_heap_def)
  have B: "\<forall>j. 0 < j \<and> j < ?m \<and> (j - 1) div 2 = 0 \<and> (0::nat) < 0 \<longrightarrow> ?a j \<le> ?a ((0 - 1) div 2)"
    by simp
  have "is_heap (heap_remove_loop ?a ?m 0) ?m"
    by (rule heap_remove_loop_heap[OF A B])
  then have i': "heap_inv ?h'" using ne cap by (simp add: heap_inv_def)
  have c: "heap_contents ?h' = heap_contents h - {#array h 0#}"
  proof (cases "?m = 0")
    case True
    then show ?thesis using n1 by (simp add: heap_contents_def)
  next
    case False
    then have m: "0 < ?m" by simp
    have "mset (map (heap_remove_loop ?a ?m 0) [0..<?m]) = mset (map ?a [0..<?m])"
      by (rule heap_remove_loop_mset)
    also have "\<dots> = mset (map (array h) [0..<Suc ?m]) - {#array h 0#}"
      by (rule mset_map_drop_head[OF m])
    finally show ?thesis using n1 by (simp add: heap_contents_def del: mset_map upt_Suc)
  qed
  from eq i' c show ?thesis by simp
qed

lemma heap_peek_max:
  assumes inv: "heap_inv h" and ne: "0 < nb_elements h"
  shows "heap_peek h = Inr (array h 0) \<and> array h 0 = Max (set_mset (heap_contents h))"
proof -
  let ?n = "nat (nb_elements h)"
  from inv have hp: "is_heap (array h) ?n" by (simp add: heap_inv_def)
  have s: "set_mset (heap_contents h) = array h ` {..<?n}"
    by (auto simp: heap_contents_def)
  have "Max (array h ` {..<?n}) = array h 0"
  proof (rule Max_eqI)
    show "finite (array h ` {..<?n})" by simp
    show "array h 0 \<in> array h ` {..<?n}" using ne by auto
    fix y assume "y \<in> array h ` {..<?n}"
    then show "y \<le> array h 0" using is_heap_root_max[OF hp] by auto
  qed
  with s ne show ?thesis by (simp add: heap_peek_def heap_empty_def)
qed

lemma heap_run_ok:
  "heap_inv h \<Longrightarrow> within_capacity ops (nb_elements h) \<Longrightarrow>
   \<exists>h'. heap_run ops h = Inr h' \<and> heap_inv h' \<and> heap_contents h' = pending ops (heap_contents h)"
proof (induction ops arbitrary: h)
  case Nil
  then show ?case by simp
next
  case (Cons op ops)
  show ?case
  proof (cases op)
    case (HAdd v)
    with Cons.prems have cap: "nb_elements h < HEAP_MAX_SIZE"
      and w: "within_capacity ops (nb_elements h + 1)" by auto
    from heap_add_ok[OF Cons.prems(1) cap, of v] obtain h1 where
      h1: "heap_add v h = Inr h1" "heap_inv h1" "nb_elements h1 = nb_elements h + 1"
        "heap_contents h1 = add_mset v (heap_contents h)" by blast
    from Cons.IH[OF h1(2)] w h1(3) obtain h' where
      "heap_run ops h1 = Inr h'" "heap_inv h'" "heap_contents h' = pending ops (heap_contents h1)"
      by auto
    with h1 HAdd show ?thesis by simp
  next
    case HRemove
    with Cons.prems have ne: "0 < nb_elements h"
      and w: "within_capacity ops (nb_elements h - 1)" by auto
    from heap_remove_ok[OF Cons.prems(1) ne] obtain h1 where
      h1: "heap_remove h = Inr h1" "heap_inv h1" "nb_elements h1 = nb_elements h - 1"
        "heap_contents h1 = heap_contents h - {#array h 0#}" by blast
    from Cons.IH[OF h1(2)] w h1(3) obtain h' where
      "heap_run ops h1 = Inr h'" "heap_inv h'" "heap_contents h' = pending ops (heap_contents h1)"
      by auto
    with h1 HRemove heap_peek_max[OF Cons.prems(1) ne] show ?thesis by simp
  qed
qed

lemma heap_create_inv: "heap_inv (heap_create a0) \<and> heap_contents (heap_create a0) = {#}"
  by (simp add: heap_inv_def heap_create_def heap_contents_def is_heap_def HEAP_MAX_SIZE_def)

section \<open>The claims on the heap\<close>

text \<open>
  C7. For every run of \<^verbatim>\<open>heap_add\<close> and \<^verbatim>\<open>heap_remove\<close> from a new
  heap that stays within capacity and never removes from an empty heap, the run does not
  fail, the heap holds the elements added and not yet removed, and on a non-empty result
  \<^verbatim>\<open>heap_peek\<close> returns the largest of them. In particular, after the additions
  of 4, 5, 6, 6, 7 in that order \<^verbatim>\<open>heap_peek\<close> returns 7, and after one
  \<^verbatim>\<open>heap_remove\<close> it returns 6, whatever the new array held.
\<close>

theorem heap_peek_is_max:
  "(within_capacity ops 0 \<longrightarrow>
      (\<exists>h. heap_run ops (heap_create a0) = Inr h
         \<and> heap_contents h = pending ops {#}
         \<and> (pending ops {#} \<noteq> {#} \<longrightarrow>
               heap_peek h = Inr (Max (set_mset (pending ops {#}))))))
   \<and> (\<exists>h. heap_run [HAdd 4, HAdd 5, HAdd 6, HAdd 6, HAdd 7] (heap_create a0) = Inr h
         \<and> heap_peek h = Inr 7)
   \<and> (\<exists>h. heap_run [HAdd 4, HAdd 5, HAdd 6, HAdd 6, HAdd 7, HRemove] (heap_create a0) = Inr h
         \<and> heap_peek h = Inr 6)"
proof -
  have gen: "\<exists>h. heap_run ops (heap_create a0) = Inr h
         \<and> heap_contents h = pending ops {#}
         \<and> (pending ops {#} \<noteq> {#} \<longrightarrow>
               heap_peek h = Inr (Max (set_mset (pending ops {#}))))"
    if w: "within_capacity ops 0" for ops
  proof -
    have i: "heap_inv (heap_create a0)" and c: "heap_contents (heap_create a0) = {#}"
      and n: "nb_elements (heap_create a0) = 0"
      using heap_create_inv[of a0] by (simp_all add: heap_create_def)
    from heap_run_ok[OF i, of ops] w n c obtain h where
      h: "heap_run ops (heap_create a0) = Inr h" "heap_inv h" "heap_contents h = pending ops {#}"
      by auto
    have "heap_peek h = Inr (Max (set_mset (pending ops {#})))" if ne: "pending ops {#} \<noteq> {#}"
    proof -
      from h(2) have "0 \<le> nb_elements h" by (simp add: heap_inv_def)
      with ne h(3) have "0 < nb_elements h"
        by (cases "nb_elements h = 0") (simp_all add: heap_contents_def)
      from heap_peek_max[OF h(2) this] h(3) show ?thesis by simp
    qed
    with h show ?thesis by blast
  qed
  have w1: "within_capacity [HAdd 4, HAdd 5, HAdd 6, HAdd 6, HAdd 7] 0"
    by (simp add: HEAP_MAX_SIZE_def)
  have w2: "within_capacity [HAdd 4, HAdd 5, HAdd 6, HAdd 6, HAdd 7, HRemove] 0"
    by (simp add: HEAP_MAX_SIZE_def)
  have s1: "\<exists>h. heap_run [HAdd 4, HAdd 5, HAdd 6, HAdd 6, HAdd 7] (heap_create a0) = Inr h
         \<and> heap_peek h = Inr 7"
  proof -
    have p: "pending [HAdd 4, HAdd 5, HAdd 6, HAdd 6, HAdd 7] {#} = {#4, 5, 6, 6, 7#}" by simp
    from gen[OF w1] obtain h where
      "heap_run [HAdd 4, HAdd 5, HAdd 6, HAdd 6, HAdd 7] (heap_create a0) = Inr h"
      "heap_peek h = Inr (Max (set_mset {#4, 5, 6, 6, 7#}))"
      unfolding p by auto
    then show ?thesis by (intro exI[of _ h]) simp
  qed
  have s2: "\<exists>h. heap_run [HAdd 4, HAdd 5, HAdd 6, HAdd 6, HAdd 7, HRemove] (heap_create a0) = Inr h
         \<and> heap_peek h = Inr 6"
  proof -
    have p: "pending [HAdd 4, HAdd 5, HAdd 6, HAdd 6, HAdd 7, HRemove] {#} = {#4, 5, 6, 6#}"
      by simp
    from gen[OF w2] obtain h where
      "heap_run [HAdd 4, HAdd 5, HAdd 6, HAdd 6, HAdd 7, HRemove] (heap_create a0) = Inr h"
      "heap_peek h = Inr (Max (set_mset {#4, 5, 6, 6#}))"
      unfolding p by auto
    then show ?thesis by (intro exI[of _ h]) simp
  qed
  from gen s1 s2 show ?thesis by blast
qed

theorem heap_peek_is_max_witness:
  "within_capacity [HAdd 3, HAdd 9, HRemove, HAdd 1] 0
   \<and> pending [HAdd 3, HAdd 9, HRemove, HAdd 1] {#} = {#1, 3#}
   \<and> (\<exists>h. heap_run [HAdd 3, HAdd 9, HRemove, HAdd 1] (heap_create (\<lambda>i. 0)) = Inr h
         \<and> heap_contents h = {#1, 3#} \<and> heap_peek h = Inr 3)"
proof -
  have w: "within_capacity [HAdd 3, HAdd 9, HRemove, HAdd 1] 0"
    by (simp add: HEAP_MAX_SIZE_def)
  have p: "pending [HAdd 3, HAdd 9, HRemove, HAdd 1] {#} = {#1, 3#}" by simp
  from heap_peek_is_max[of "[HAdd 3, HAdd 9, HRemove, HAdd 1]" "\<lambda>i. 0"] w
  obtain h where
    "heap_run [HAdd 3, HAdd 9, HRemove, HAdd 1] (heap_create (\<lambda>i. 0)) = Inr h"
    "heap_contents h = {#1, 3#}" "heap_peek h = Inr (Max (set_mset {#1, 3#}))"
    unfolding p by auto
  then have "\<exists>h. heap_run [HAdd 3, HAdd 9, HRemove, HAdd 1] (heap_create (\<lambda>i. 0)) = Inr h
         \<and> heap_contents h = {#1, 3#} \<and> heap_peek h = Inr 3"
    by (intro exI[of _ h]) simp
  with w p show ?thesis by (simp only: simp_thms)
qed

text \<open>
  C8. A violated precondition of the heap is to abort at the call with a failed assertion.
  \<^verbatim>\<open>heap_peek\<close> on an empty heap and \<^verbatim>\<open>heap_add\<close> on a heap of
  \<^verbatim>\<open>HEAP_MAX_SIZE\<close> elements do. \<^verbatim>\<open>heap_remove\<close> on an empty heap does
  not: no assertion guards it, and its first statement reads the cell of index \<open>-1\<close>.
\<close>

theorem heap_remove_empty_not_asserted:
  "heap_remove (heap_create a0) = Inl OutOfBounds
   \<and> heap_remove (heap_create a0) \<noteq> Inl AssertionFailed
   \<and> heap_peek (heap_create a0) = Inl AssertionFailed
   \<and> heap_add v \<lparr>array = a0, nb_elements = 1000\<rparr> = Inl AssertionFailed"
  by (simp add: heap_remove_def heap_create_def heap_peek_def heap_empty_def heap_add_def
      HEAP_MAX_SIZE_def)

section \<open>Reads of \<^verbatim>\<open>find_node\<close> on the memory\<close>

lemma find_node_mem_frame:
  "find_node_mem fuel v p mem = Some (res, mem') \<Longrightarrow> mem' = mem"
proof (induction fuel arbitrary: p)
  case 0
  then show ?case by simp
next
  case (Suc fuel)
  then show ?case
    by (auto split: option.splits if_splits)
qed

lemma find_node_mem_simple:
  "simple_repr mem p t \<Longrightarrow> size t < fuel \<Longrightarrow>
   find_node_mem fuel v p mem = Some (Inr (simple_find_node v t), mem)"
proof (induction t arbitrary: p fuel)
  case SNull
  then show ?case by (cases fuel) auto
next
  case (SNode x l r)
  from SNode.prems(2) obtain k where k: "fuel = Suc k" by (cases fuel) auto
  with SNode.prems(2) have sl: "size l < k" and sr: "size r < k" by auto
  from SNode.prems(1) obtain a node where
    n: "p = Some a" "mem a = Some node" "nvalue node = x"
       "simple_repr mem (nleft node) l" "simple_repr mem (nright node) r"
    by (auto split: option.splits)
  from SNode.IH(1)[OF n(4) sl] SNode.IH(2)[OF n(5) sr] n(1,2,3) k
  show ?case by simp
qed

lemma find_node_mem_avl:
  "avl_repr mem p t \<Longrightarrow> size t < fuel \<Longrightarrow>
   find_node_mem fuel v p mem = Some (Inr (avl_find_node v t), mem)"
proof (induction t arbitrary: p fuel)
  case ANull
  then show ?case by (cases fuel) auto
next
  case (ANode x h l r)
  from ANode.prems(2) obtain k where k: "fuel = Suc k" by (cases fuel) auto
  with ANode.prems(2) have sl: "size l < k" and sr: "size r < k" by auto
  from ANode.prems(1) obtain a node where
    n: "p = Some a" "mem a = Some node" "nvalue node = x"
       "avl_repr mem (nleft node) l" "avl_repr mem (nright node) r"
    by (auto split: option.splits)
  from ANode.IH(1)[OF n(4) sl] ANode.IH(2)[OF n(5) sr] n(1,2,3) k
  show ?case by simp
qed

lemma find_parent_of_found_node:
  "(l = RNull \<or> rvalue l \<noteq> v) \<Longrightarrow> (r = RNull \<or> rvalue r \<noteq> v) \<Longrightarrow>
   find_parent v (RNode v l r c) = None"
  by auto

section \<open>The trees that the red-black file builds\<close>










section \<open>The claims on \<^verbatim>\<open>find_node\<close>, the rotations and the red-black tree\<close>

text \<open>
  C10. \<^verbatim>\<open>find_node\<close> is read-only, for the plain tree and for the AVL tree: a
  call that returns leaves the memory as it was, at every address and in every field
  (values, links and heights). On a memory that holds a tree at the pointer the call
  returns, with the answer of the search on that tree.
\<close>

theorem find_node_read_only:
  "(find_node_mem fuel v p mem = Some (res, mem') \<longrightarrow> mem' = mem)
   \<and> (simple_repr smem sp s \<longrightarrow>
        find_node_mem (Suc (size s)) v sp smem = Some (Inr (simple_find_node v s), smem))
   \<and> (avl_repr amem ap a \<longrightarrow>
        find_node_mem (Suc (size a)) v ap amem = Some (Inr (avl_find_node v a), amem))"
  using find_node_mem_frame[of fuel v p mem res mem']
    find_node_mem_simple[of smem sp s "Suc (size s)" v]
    find_node_mem_avl[of amem ap a "Suc (size a)" v]
  by blast

theorem find_node_read_only_witness:
  "simple_repr
     ((\<lambda>a. None)(1 := Some \<lparr>nvalue = 5, nleft = Some 2, nright = None\<rparr>,
                  2 := Some \<lparr>nvalue = 3, nleft = None, nright = None\<rparr>))
     (Some 1) (SNode 5 (SNode 3 SNull SNull) SNull)
   \<and> find_node_mem 3 3 (Some 1)
       ((\<lambda>a. None)(1 := Some \<lparr>nvalue = 5, nleft = Some 2, nright = None\<rparr>,
                    2 := Some \<lparr>nvalue = 3, nleft = None, nright = None\<rparr>))
     = Some (Inr True,
         (\<lambda>a. None)(1 := Some \<lparr>nvalue = 5, nleft = Some 2, nright = None\<rparr>,
                    2 := Some \<lparr>nvalue = 3, nleft = None, nright = None\<rparr>))
   \<and> avl_repr
       ((\<lambda>a. None)(1 := Some \<lparr>nvalue = 5, nleft = None, nright = Some 2, nheight = 1\<rparr>,
                    2 := Some \<lparr>nvalue = 8, nleft = None, nright = None, nheight = 0\<rparr>))
       (Some 1) (ANode 5 1 ANull (ANode 8 0 ANull ANull))
   \<and> find_node_mem 3 7 (Some 1)
       ((\<lambda>a. None)(1 := Some \<lparr>nvalue = 5, nleft = None, nright = Some 2, nheight = 1\<rparr>,
                    2 := Some \<lparr>nvalue = 8, nleft = None, nright = None, nheight = 0\<rparr>))
     = Some (Inr False,
         (\<lambda>a. None)(1 := Some \<lparr>nvalue = 5, nleft = None, nright = Some 2, nheight = 1\<rparr>,
                    2 := Some \<lparr>nvalue = 8, nleft = None, nright = None, nheight = 0\<rparr>))"
proof -
  let ?sm = "(\<lambda>a. None)(1 := Some \<lparr>nvalue = 5, nleft = Some 2, nright = None\<rparr>,
                  2 := Some \<lparr>nvalue = 3, nleft = None, nright = None\<rparr>)"
  let ?am = "(\<lambda>a. None)(1 := Some \<lparr>nvalue = 5, nleft = None, nright = Some 2, nheight = 1\<rparr>,
                  2 := Some \<lparr>nvalue = 8, nleft = None, nright = None, nheight = 0\<rparr>)"
  have s: "simple_repr ?sm (Some 1) (SNode 5 (SNode 3 SNull SNull) SNull)" by simp
  have a: "avl_repr ?am (Some 1) (ANode 5 1 ANull (ANode 8 0 ANull ANull))" by simp
  have f: "find_node_mem 3 3 (Some 1) ?sm = Some (Inr True, ?sm)"
    by (simp add: numeral_3_eq_3)
  from find_node_read_only[of 3 3 "Some 1" ?sm "Inr True" ?sm ?sm "Some 1"
      "SNode 5 (SNode 3 SNull SNull) SNull" ?am "Some 1" "ANode 5 1 ANull (ANode 8 0 ANull ANull)"]
    s a f
  show ?thesis by (simp add: numeral_3_eq_3)
qed

text \<open>
  C4. A rotation to the left of an empty tree or of a node without a right child returns
  its argument, and so does a rotation to the right of an empty tree or of a node without a
  left child. The rotations of the AVL file do. Those of the red-black file return
  \<^verbatim>\<open>NULL\<close> for a node without the child, not the node.
\<close>

theorem rb_rotate_returns_null:
  "rb_bst_rotate_left (RNode 1 RNull RNull BLACK) = RNull
   \<and> rb_bst_rotate_left (RNode 1 RNull RNull BLACK) \<noteq> RNode 1 RNull RNull BLACK
   \<and> rb_bst_rotate_right (RNode 1 RNull RNull BLACK) = RNull
   \<and> rb_bst_rotate_right (RNode 1 RNull RNull BLACK) \<noteq> RNode 1 RNull RNull BLACK
   \<and> avl_bst_rotate_left ANull = ANull
   \<and> avl_bst_rotate_left (ANode x h l ANull) = ANode x h l ANull
   \<and> avl_bst_rotate_right ANull = ANull
   \<and> avl_bst_rotate_right (ANode x h ANull r) = ANode x h ANull r"
  by (simp add: rb_bst_rotate_left_def rb_bst_rotate_right_def
      avl_bst_rotate_left_def avl_bst_rotate_right_def)

text \<open>
  C2. After every \<^verbatim>\<open>add_node\<close> on a red-black tree the tree is to satisfy the
  three invariants. From the empty tree the additions of 1 and 2 return the black root 1
  with the red right child 2, which satisfies them; the addition of 3 to that tree matches
  the third pattern of \<^verbatim>\<open>fix_red_black\<close> at the root, the rotation returns
  \<^verbatim>\<open>NULL\<close>, and \<^verbatim>\<open>add_node\<close> writes the color of that
  \<^verbatim>\<open>NULL\<close> root: no tree is returned.
\<close>

theorem rb_add_node_no_tree:
  "rb_add_node 1 RNull = Inr (RNode 1 RNull RNull BLACK)
   \<and> rb_add_node 2 (RNode 1 RNull RNull BLACK)
       = Inr (RNode 1 RNull (RNode 2 RNull RNull RED) BLACK)
   \<and> rb_inv (RNode 1 RNull (RNode 2 RNull RNull RED) BLACK)
   \<and> add_node_rec 3 (RNode 1 RNull (RNode 2 RNull RNull RED) BLACK) = Inr RNull
   \<and> rb_add_node 3 (RNode 1 RNull (RNode 2 RNull RNull RED) BLACK) = Inl NullDereference"
  by (simp add: rb_add_node_def rb_inv_def rb_bst_rotate_left_def)




end
